theory Spec2Isabelle
  imports Main "HOL-Library.Word"
begin

section \<open>libvest: the vector core (vec.c)\<close>

text \<open>
  A vector is the C struct \<^verbatim>\<open>vec_obj_t\<close>: the three \<^verbatim>\<open>size_t\<close> header fields and the
  flexible array \<^verbatim>\<open>data[]\<close>.  \<^verbatim>\<open>size_t\<close> is a 64-bit word, so every addition,
  subtraction and multiplication of the source wraps as it does in C.

  The buffer is modelled at the granularity of items: \<open>data\<close> is the list of the items
  that the allocation holds (one item is \<open>unit_size\<close> bytes), so its length is the
  number of items allocated, and a pointer into the buffer is an item index.  Every
  access of the source is item aligned.  A read or a write outside the allocation is
  undefined behaviour in C; in the model it is the error \<open>OutOfBounds\<close>.

  \<^verbatim>\<open>malloc\<close> and \<^verbatim>\<open>realloc\<close> are not part of the repository.  Their outcome is taken
  from an oracle that is threaded through the calls: the list of the outcomes of the
  allocation requests still to come, where the exhausted list means that every further
  request succeeds.  The memory a successful \<^verbatim>\<open>realloc\<close> adds is indeterminate in C; the
  model fills it with zero items, which is only observable when \<open>count\<close> exceeded
  \<open>capacity\<close> before the call (otherwise \<^verbatim>\<open>vec_resize\<close> clears all of it itself).
  \<^verbatim>\<open>free\<close> is not modelled.
\<close>

type_synonym size_t = "64 word"

type_synonym heap = "bool list"

datatype error = OutOfBounds | NullDeref | AssertFail | BadVaArg

record 'a vec_obj_t =
  unit_size :: size_t
  capacity :: size_t
  count :: size_t
  data :: "'a list"

definition alloc :: "heap \<Rightarrow> bool \<times> heap" where
  "alloc h = (case h of [] \<Rightarrow> (True, []) | b # t \<Rightarrow> (b, t))"

definition VEC_INIT_CAPACITY :: size_t where
  "VEC_INIT_CAPACITY = 128"

text \<open>\<^verbatim>\<open>memset(dst + off, 0, n)\<close> and \<^verbatim>\<open>memcpy(dst + off, src, n)\<close>, in items; \<open>None\<close> when
  the access leaves the destination or the source.\<close>

definition memset0 :: "('a::zero) list \<Rightarrow> size_t \<Rightarrow> size_t \<Rightarrow> 'a list option" where
  "memset0 dst off n =
     (if unat off + unat n \<le> length dst
      then Some (take (unat off) dst @ replicate (unat n) 0 @ drop (unat off + unat n) dst)
      else None)"

definition memcpy :: "'a list \<Rightarrow> size_t \<Rightarrow> 'a list \<Rightarrow> size_t \<Rightarrow> 'a list option" where
  "memcpy dst off src n =
     (if unat off + unat n \<le> length dst \<and> unat n \<le> length src
      then Some (take (unat off) dst @ take (unat n) src @ drop (unat off + unat n) dst)
      else None)"

text \<open>\<^verbatim>\<open>realloc\<close> to \<open>n\<close> items: the old items that fit are kept.\<close>

definition realloc_data :: "('a::zero) list \<Rightarrow> nat \<Rightarrow> 'a list" where
  "realloc_data d n = take n d @ replicate (n - length d) 0"

definition vec_new_len :: "size_t \<Rightarrow> size_t \<Rightarrow> heap \<Rightarrow> ('a::zero) vec_obj_t option \<times> heap" where
  "vec_new_len us cnt h =
     (case alloc h of
        (False, h') \<Rightarrow> (None, h')
      | (True, h') \<Rightarrow>
          (Some \<lparr>unit_size = us, capacity = VEC_INIT_CAPACITY, count = cnt,
                 data = replicate (unat VEC_INIT_CAPACITY) 0\<rparr>, h'))"

definition vec_new :: "size_t \<Rightarrow> heap \<Rightarrow> ('a::zero) vec_obj_t option \<times> heap" where
  "vec_new us h = vec_new_len us 0 h"

definition vec_resize ::
  "('a::zero) vec_obj_t \<Rightarrow> size_t \<Rightarrow> heap \<Rightarrow> error + ('a vec_obj_t option \<times> heap)" where
  "vec_resize obj cnt h =
     (let old_size = count obj in
      if cnt \<ge> capacity obj then
        (let cap = capacity obj * 2 in
         case alloc h of
           (False, h') \<Rightarrow> Inr (None, h')
         | (True, h') \<Rightarrow>
             (case memset0 (realloc_data (data obj) (unat cap)) old_size (cap - old_size) of
                None \<Rightarrow> Inl OutOfBounds
              | Some d \<Rightarrow> Inr (Some (obj\<lparr>capacity := cap, count := cnt, data := d\<rparr>), h')))
      else Inr (Some (obj\<lparr>count := cnt\<rparr>), h))"

definition vec_count :: "'a vec_obj_t \<Rightarrow> size_t" where
  "vec_count obj = count obj"

definition vec_capacity :: "'a vec_obj_t \<Rightarrow> size_t" where
  "vec_capacity obj = capacity obj"

definition vec_extend ::
  "('a::zero) vec_obj_t \<Rightarrow> size_t \<Rightarrow> heap \<Rightarrow> error + ('a vec_obj_t option \<times> heap)" where
  "vec_extend obj n h = vec_resize obj (vec_count obj + n) h"

text \<open>The pointer \<^verbatim>\<open>vec_ptr_at\<close> returns is \<^verbatim>\<open>data + idx * unit_size\<close>; the model returns the
  item index \<open>idx\<close>, computed in \<^verbatim>\<open>size_t\<close> as the source does.\<close>

definition vec_ptr_at :: "'a vec_obj_t \<Rightarrow> size_t \<Rightarrow> size_t" where
  "vec_ptr_at obj pos =
     (if pos = 0 then 0
      else if pos \<ge> count obj then count obj - 1
      else pos)"

text \<open>\<^verbatim>\<open>items\<close> is the memory readable through the source pointer.  The temporary
  buffer comes from \<^verbatim>\<open>vec_new_len\<close>, whose result the source does not check.\<close>

definition vec_copy ::
  "('a::zero) vec_obj_t \<Rightarrow> size_t \<Rightarrow> 'a list \<Rightarrow> size_t \<Rightarrow> heap \<Rightarrow> error + ('a vec_obj_t \<times> heap)" where
  "vec_copy obj pos items len h =
     (if len = 0 then Inr (obj, h)
      else if pos \<ge> count obj then Inr (obj, h)
      else
        (let tocopy = count obj - pos;
             len = (if len > tocopy then tocopy else len) in
         case vec_new_len (unit_size obj) len h of
           (None, h') \<Rightarrow> Inl NullDeref
         | (Some buff, h') \<Rightarrow>
             (case memcpy (data buff) 0 items len of
                None \<Rightarrow> Inl OutOfBounds
              | Some b \<Rightarrow>
                  (case memcpy (data obj) (vec_ptr_at obj pos) b len of
                     None \<Rightarrow> Inl OutOfBounds
                   | Some d \<Rightarrow> Inr (obj\<lparr>data := d\<rparr>, h')))))"

definition vec_set ::
  "('a::zero) vec_obj_t \<Rightarrow> size_t \<Rightarrow> 'a list \<Rightarrow> heap \<Rightarrow> error + ('a vec_obj_t \<times> heap)" where
  "vec_set obj pos item h = vec_copy obj pos item 1 h"

definition vec_get :: "'a vec_obj_t \<Rightarrow> size_t \<Rightarrow> error + 'a" where
  "vec_get obj pos =
     (let ptr = vec_ptr_at obj pos in
      if unat ptr < length (data obj) then Inr (data obj ! unat ptr) else Inl OutOfBounds)"


section \<open>The string layer (str.c)\<close>

text \<open>
  A string is a vector of bytes.  A C string argument (\<^verbatim>\<open>const char *\<close>) is the list of
  its characters; the memory readable through the pointer is that list followed by the
  terminator, and \<^verbatim>\<open>strlen\<close> is its length (the characters contain no zero byte).
\<close>

type_synonym byte = "8 word"
type_synonym str_t = "byte vec_obj_t"
type_synonym cstring = "byte list"
type_synonym vec_index_t = "size_t vec_obj_t"

definition strlen :: "cstring \<Rightarrow> size_t" where
  "strlen s = of_nat (length s)"

definition c_mem :: "cstring \<Rightarrow> byte list" where
  "c_mem s = s @ [0]"

text \<open>\<^verbatim>\<open>p[i]\<close> as a read and \<^verbatim>\<open>p[i] = v\<close> as a write, on the memory \<open>p\<close> points to; the
  memory readable through a pointer into a vector reaches to the end of the allocation.\<close>

definition load :: "'a list \<Rightarrow> size_t \<Rightarrow> error + 'a" where
  "load mem i = (if unat i < length mem then Inr (mem ! unat i) else Inl OutOfBounds)"

definition store :: "'a vec_obj_t \<Rightarrow> size_t \<Rightarrow> 'a \<Rightarrow> error + 'a vec_obj_t" where
  "store obj i v =
     (if unat i < length (data obj) then Inr (obj\<lparr>data := (data obj)[unat i := v]\<rparr>)
      else Inl OutOfBounds)"

definition mem_at :: "'a vec_obj_t \<Rightarrow> size_t \<Rightarrow> 'a list" where
  "mem_at obj ptr = drop (unat ptr) (data obj)"

definition str_length :: "str_t \<Rightarrow> size_t" where
  "str_length self = vec_count self"

definition str_resize :: "str_t \<Rightarrow> size_t \<Rightarrow> heap \<Rightarrow> error + (str_t option \<times> heap)" where
  "str_resize self sz h =
     (case vec_resize self (sz + 1) h of
        Inl e \<Rightarrow> Inl e
      | Inr (None, h1) \<Rightarrow> Inr (None, h1)
      | Inr (Some s1, h1) \<Rightarrow>
          (case store s1 sz 0 of
             Inl e \<Rightarrow> Inl e
           | Inr s2 \<Rightarrow>
               (case vec_resize s2 sz h1 of
                  Inl e \<Rightarrow> Inl e
                | Inr (None, h2) \<Rightarrow> Inr (None, h2)
                | Inr (Some s3, h2) \<Rightarrow> Inr (Some s3, h2))))"

definition str_extend :: "str_t \<Rightarrow> size_t \<Rightarrow> heap \<Rightarrow> error + (str_t option \<times> heap)" where
  "str_extend self n h = str_resize self (str_length self + n) h"

definition str_empty :: "heap \<Rightarrow> str_t option \<times> heap" where
  "str_empty h = vec_new 1 h"

definition str_new_len :: "size_t \<Rightarrow> heap \<Rightarrow> str_t option \<times> heap" where
  "str_new_len n h = vec_new_len 1 n h"

definition str_new :: "cstring \<Rightarrow> heap \<Rightarrow> error + (str_t option \<times> heap)" where
  "str_new str h =
     (let len = strlen str in
      case str_new_len len h of
        (None, h1) \<Rightarrow> Inr (None, h1)
      | (Some self, h1) \<Rightarrow>
          (case vec_copy self 0 (c_mem str) len h1 of
             Inl e \<Rightarrow> Inl e
           | Inr (s1, h2) \<Rightarrow> Inr (Some s1, h2)))"

definition str_insert :: "str_t \<Rightarrow> size_t \<Rightarrow> cstring \<Rightarrow> heap \<Rightarrow> error + (str_t option \<times> heap)" where
  "str_insert self pos str h =
     (if pos > str_length self then Inr (None, h)
      else
        (let str_len = strlen str in
         case str_extend self str_len h of
           Inl e \<Rightarrow> Inl e
         | Inr (None, h1) \<Rightarrow> Inr (None, h1)
         | Inr (Some s1, h1) \<Rightarrow>
             (case vec_copy s1 (pos + str_len) (mem_at s1 (vec_ptr_at s1 pos))
                     (str_length s1 - pos) h1 of
                Inl e \<Rightarrow> Inl e
              | Inr (s2, h2) \<Rightarrow>
                  (case vec_copy s2 pos (c_mem str) str_len h2 of
                     Inl e \<Rightarrow> Inl e
                   | Inr (s3, h3) \<Rightarrow> Inr (Some s3, h3)))))"

definition str_append :: "str_t \<Rightarrow> cstring \<Rightarrow> heap \<Rightarrow> error + (str_t option \<times> heap)" where
  "str_append self str h = str_insert self (str_length self) str h"

definition str_clear :: "str_t \<Rightarrow> heap \<Rightarrow> error + (str_t option \<times> heap)" where
  "str_clear self h = str_resize self 0 h"

subsection \<open>Search\<close>

text \<open>The two \<^verbatim>\<open>while\<close> loops of the search terminate only because of what the prefix
  table holds, so they are partial functions: \<open>None\<close> is a run that does not return.\<close>

partial_function (option) kmp_compute_lps_loop ::
  "cstring \<Rightarrow> size_t \<Rightarrow> vec_index_t \<Rightarrow> size_t \<Rightarrow> size_t \<Rightarrow> heap
     \<Rightarrow> (error + (vec_index_t \<times> heap)) option" where
  "kmp_compute_lps_loop pat pat_len lps i len h =
     (if i < pat_len then
        (case load (c_mem pat) i of
           Inl e \<Rightarrow> Some (Inl e)
         | Inr a \<Rightarrow>
             (case load (c_mem pat) len of
                Inl e \<Rightarrow> Some (Inl e)
              | Inr b \<Rightarrow>
                  if a = b then
                    (case vec_set lps i [len + 1] h of
                       Inl e \<Rightarrow> Some (Inl e)
                     | Inr (lps1, h1) \<Rightarrow>
                         kmp_compute_lps_loop pat pat_len lps1 (i + 1) (len + 1) h1)
                  else if len \<noteq> 0 then
                    (case vec_get lps (len - 1) of
                       Inl e \<Rightarrow> Some (Inl e)
                     | Inr len1 \<Rightarrow> kmp_compute_lps_loop pat pat_len lps i len1 h)
                  else
                    (case vec_set lps i [0] h of
                       Inl e \<Rightarrow> Some (Inl e)
                     | Inr (lps1, h1) \<Rightarrow>
                         kmp_compute_lps_loop pat pat_len lps1 (i + 1) len h1)))
      else Some (Inr (lps, h)))"

declare kmp_compute_lps_loop.simps [code]

definition kmp_compute_lps ::
  "cstring \<Rightarrow> size_t \<Rightarrow> vec_index_t \<Rightarrow> heap \<Rightarrow> (error + (vec_index_t \<times> heap)) option" where
  "kmp_compute_lps pat pat_len lps h =
     (case store lps 0 0 of
        Inl e \<Rightarrow> Some (Inl e)
      | Inr lps0 \<Rightarrow> kmp_compute_lps_loop pat pat_len lps0 1 0 h)"


partial_function (option) str_find_loop ::
  "str_t \<Rightarrow> cstring \<Rightarrow> size_t \<Rightarrow> size_t \<Rightarrow> vec_index_t \<Rightarrow> vec_index_t \<Rightarrow> size_t \<Rightarrow> size_t \<Rightarrow> heap
     \<Rightarrow> (error + (vec_index_t option \<times> heap)) option" where
  "str_find_loop self pat n m lps pos i j h =
     (if i < n then
        (case load (data self) i of
           Inl e \<Rightarrow> Some (Inl e)
         | Inr a \<Rightarrow>
             (case load (c_mem pat) j of
                Inl e \<Rightarrow> Some (Inl e)
              | Inr b \<Rightarrow>
                  (let i1 = (if a = b then i + 1 else i);
                       j1 = (if a = b then j + 1 else j) in
                   if j1 = m then
                     (case vec_extend pos 1 h of
                        Inl e \<Rightarrow> Some (Inl e)
                      | Inr (None, h1) \<Rightarrow> Some (Inr (None, h1))
                      | Inr (Some pos1, h1) \<Rightarrow>
                          (case vec_set pos1 (vec_count pos1 - 1) [i1 - j1] h1 of
                             Inl e \<Rightarrow> Some (Inl e)
                           | Inr (pos2, h2) \<Rightarrow>
                               (case vec_get lps (j1 - 1) of
                                  Inl e \<Rightarrow> Some (Inl e)
                                | Inr j2 \<Rightarrow> str_find_loop self pat n m lps pos2 i1 j2 h2)))
                   else
                     (case (if i1 < n
                            then (case load (data self) i1 of
                                    Inl e \<Rightarrow> Inl e
                                  | Inr a1 \<Rightarrow>
                                      (case load (c_mem pat) j1 of
                                         Inl e \<Rightarrow> Inl e
                                       | Inr b1 \<Rightarrow> Inr (a1 \<noteq> b1)))
                            else Inr False) of
                        Inl e \<Rightarrow> Some (Inl e)
                      | Inr differ \<Rightarrow>
                          if differ then
                            (if j1 \<noteq> 0 then
                               (case vec_get lps (j1 - 1) of
                                  Inl e \<Rightarrow> Some (Inl e)
                                | Inr j2 \<Rightarrow> str_find_loop self pat n m lps pos i1 j2 h)
                             else str_find_loop self pat n m lps pos (i1 + 1) j1 h)
                          else str_find_loop self pat n m lps pos i1 j1 h))))
      else Some (Inr (Some pos, h)))"

declare str_find_loop.simps [code]

text \<open>\<^verbatim>\<open>sizeof(size_t)\<close> is 8.  At the label \<^verbatim>\<open>exit\<close> the source returns \<^verbatim>\<open>pos\<close>, whatever
  made it jump there.\<close>

definition str_find :: "str_t \<Rightarrow> cstring \<Rightarrow> heap \<Rightarrow> (error + (vec_index_t option \<times> heap)) option" where
  "str_find self pat h =
     (let n = str_length self; m = strlen pat in
      if m = 0 then Some (Inr (None, h))
      else
        (case vec_new 8 h of
           (None, h1) \<Rightarrow> Some (Inr (None, h1))
         | (Some pos, h1) \<Rightarrow>
             (case vec_new_len 8 m h1 of
                (None, h2) \<Rightarrow> Some (Inr (Some pos, h2))
              | (Some lps, h2) \<Rightarrow>
                  (case kmp_compute_lps pat m lps h2 of
                     None \<Rightarrow> None
                   | Some (Inl e) \<Rightarrow> Some (Inl e)
                   | Some (Inr (lps1, h3)) \<Rightarrow> str_find_loop self pat n m lps1 pos 0 0 h3))))"


subsection \<open>Replace and repeat\<close>

lemma word_loop_measure: "(j :: size_t) < n \<Longrightarrow> unat n - unat (j + 1) < unat n - unat j"
  by unat_arith

function str_replace_adjust ::
  "vec_index_t \<Rightarrow> size_t \<Rightarrow> size_t \<Rightarrow> size_t \<Rightarrow> heap \<Rightarrow> error + (vec_index_t \<times> heap)" where
  "str_replace_adjust pos pos_count shift j h =
     (if j < pos_count then
        (case vec_get pos j of
           Inl e \<Rightarrow> Inl e
         | Inr val \<Rightarrow>
             (case vec_set pos j [val + shift] h of
                Inl e \<Rightarrow> Inl e
              | Inr (pos1, h1) \<Rightarrow> str_replace_adjust pos1 pos_count shift (j + 1) h1))
      else Inr (pos, h))"
  by pat_completeness auto
termination
  by (relation "measure (\<lambda>(pos, pos_count, shift, j, h). unat pos_count - unat j)")
    (auto simp: word_loop_measure)

declare str_replace_adjust.simps [simp del]

function str_replace_write ::
  "str_t \<Rightarrow> size_t \<Rightarrow> cstring \<Rightarrow> size_t \<Rightarrow> size_t \<Rightarrow> heap \<Rightarrow> error + (str_t \<times> heap)" where
  "str_replace_write self index new_str len_new j h =
     (if j < len_new then
        (case vec_set self (index + j) (drop (unat j) (c_mem new_str)) h of
           Inl e \<Rightarrow> Inl e
         | Inr (s1, h1) \<Rightarrow> str_replace_write s1 index new_str len_new (j + 1) h1)
      else Inr (self, h))"
  by pat_completeness auto
termination
  by (relation "measure (\<lambda>(self, index, new_str, len_new, j, h). unat len_new - unat j)")
    (auto simp: word_loop_measure)

declare str_replace_write.simps [simp del]

text \<open>The body of the outer \<^verbatim>\<open>for\<close> loop; \<open>cnt\<close> is \<^verbatim>\<open>(size_t)count\<close>.  A failed
  \<^verbatim>\<open>str_extend\<close> jumps to \<^verbatim>\<open>exit\<close> and returns the null \<^verbatim>\<open>self\<close>.\<close>

function str_replace_loop ::
  "str_t \<Rightarrow> cstring \<Rightarrow> size_t \<Rightarrow> size_t \<Rightarrow> size_t \<Rightarrow> size_t \<Rightarrow> vec_index_t \<Rightarrow> size_t \<Rightarrow> size_t \<Rightarrow> heap
     \<Rightarrow> error + (str_t option \<times> heap)" where
  "str_replace_loop self new_str len_old len_new shift cnt pos pos_count i h =
     (if i < pos_count then
        (if i \<ge> cnt then Inr (Some self, h)
         else
           (case vec_get pos i of
              Inl e \<Rightarrow> Inl e
            | Inr index \<Rightarrow>
                (case (if shift \<noteq> 0 then
                         (case str_extend self shift h of
                            Inl e \<Rightarrow> Inl e
                          | Inr (None, h1) \<Rightarrow> Inr (None, h1)
                          | Inr (Some s1, h1) \<Rightarrow>
                              (case vec_copy s1 (index + len_new)
                                      (mem_at s1 (vec_ptr_at s1 (index + len_old)))
                                      (str_length s1 - index) h1 of
                                 Inl e \<Rightarrow> Inl e
                               | Inr (s2, h2) \<Rightarrow>
                                   (case str_replace_adjust pos pos_count shift (i + 1) h2 of
                                      Inl e \<Rightarrow> Inl e
                                    | Inr (pos1, h3) \<Rightarrow> Inr (Some (s2, pos1), h3))))
                       else Inr (Some (self, pos), h)) of
                   Inl e \<Rightarrow> Inl e
                 | Inr (None, h1) \<Rightarrow> Inr (None, h1)
                 | Inr (Some (s2, pos1), h3) \<Rightarrow>
                     (case str_replace_write s2 index new_str len_new 0 h3 of
                        Inl e \<Rightarrow> Inl e
                      | Inr (s3, h4) \<Rightarrow>
                          str_replace_loop s3 new_str len_old len_new shift cnt pos1 pos_count
                            (i + 1) h4))))
      else Inr (Some self, h))"
  by pat_completeness auto
termination
proof (relation "measure (\<lambda>(self, new_str, len_old, len_new, shift, cnt, pos, pos_count, i, h).
        unat pos_count - unat i)")
  show "wf (measure (\<lambda>(self, new_str, len_old, len_new, shift, cnt, pos, pos_count, i, h).
        unat pos_count - unat (i :: size_t)))"
    by (rule wf_measure)
qed (simp only: in_measure prod.case word_loop_measure)

declare str_replace_loop.simps [simp del]

text \<open>\<^verbatim>\<open>count\<close> is a C \<^verbatim>\<open>int\<close>; the cast to \<^verbatim>\<open>size_t\<close> extends its sign.\<close>

definition str_replace ::
  "str_t \<Rightarrow> cstring \<Rightarrow> cstring \<Rightarrow> 32 word \<Rightarrow> heap \<Rightarrow> (error + (str_t option \<times> heap)) option" where
  "str_replace self old_str new_str cnt h =
     (let len_old = strlen old_str in
      if len_old > str_length self then Some (Inr (None, h))
      else
        (case str_find self old_str h of
           None \<Rightarrow> None
         | Some (Inl e) \<Rightarrow> Some (Inl e)
         | Some (Inr (None, h1)) \<Rightarrow> Some (Inr (None, h1))
         | Some (Inr (Some pos, h1)) \<Rightarrow>
             (let pos_count = vec_count pos in
              if pos_count = 0 then Some (Inr (Some self, h1))
              else
                (let len_new = strlen new_str;
                     shift = len_new - len_old in
                 Some (str_replace_loop self new_str len_old len_new shift (scast cnt)
                         pos pos_count 0 h1)))))"

definition str_remove :: "str_t \<Rightarrow> cstring \<Rightarrow> heap \<Rightarrow> (error + (str_t option \<times> heap)) option" where
  "str_remove self str h = str_replace self str [] (- 1) h"

function str_repeat_loop ::
  "str_t \<Rightarrow> size_t \<Rightarrow> size_t \<Rightarrow> size_t \<Rightarrow> heap \<Rightarrow> error + (str_t \<times> heap)" where
  "str_repeat_loop self len cnt i h =
     (if i < cnt then
        (case vec_copy self (i * len) (mem_at self 0) len h of
           Inl e \<Rightarrow> Inl e
         | Inr (s1, h1) \<Rightarrow> str_repeat_loop s1 len cnt (i + 1) h1)
      else Inr (self, h))"
  by pat_completeness auto
termination
  by (relation "measure (\<lambda>(self, len, cnt, i, h). unat cnt - unat i)")
    (auto simp: word_loop_measure)

declare str_repeat_loop.simps [simp del]

definition str_repeat :: "str_t \<Rightarrow> size_t \<Rightarrow> heap \<Rightarrow> error + (str_t option \<times> heap)" where
  "str_repeat self cnt h =
     (if cnt = 0 then Inr (Some self, h)
      else
        (let len = str_length self in
         case str_extend self (len * cnt) h of
           Inl e \<Rightarrow> Inl e
         | Inr (None, h1) \<Rightarrow> Inr (None, h1)
         | Inr (Some s1, h1) \<Rightarrow>
             (case str_repeat_loop s1 len cnt 0 h1 of
                Inl e \<Rightarrow> Inl e
              | Inr (s2, h2) \<Rightarrow> Inr (Some s2, h2))))"


subsection \<open>Format\<close>

text \<open>
  The variadic arguments are a list; fetching one of the wrong type, or one that is not
  there, is undefined behaviour (\<open>BadVaArg\<close>).  \<^verbatim>\<open>snprintf\<close> is not part of the
  repository: the decimal renderings are written out below, and a \<^verbatim>\<open>double\<close> argument
  carries the text that \<^verbatim>\<open>%g\<close> prints for it.  Every rendering fits the 64 bytes of
  \<^verbatim>\<open>buf\<close>.
\<close>

datatype vararg =
  ArgStr cstring
| ArgInt "32 word"
| ArgLLong "64 word"
| ArgULLong "64 word"
| ArgDouble cstring

fun dec_digits :: "nat \<Rightarrow> byte list" where
  "dec_digits n =
     (if n < 10 then [of_nat (48 + n)]
      else dec_digits (n div 10) @ [of_nat (48 + n mod 10)])"

definition dec_int :: "int \<Rightarrow> byte list" where
  "dec_int k = (if k < 0 then 45 # dec_digits (nat (- k)) else dec_digits (nat k))"

text \<open>The \<^verbatim>\<open>switch\<close> on the directive byte: the text the directive appends and the
  arguments left.  Every arm of the source appends its text with \<^verbatim>\<open>str_append\<close> and
  advances \<^verbatim>\<open>pos\<close> by its length.\<close>

definition str_format_directive :: "byte \<Rightarrow> vararg list \<Rightarrow> error + (cstring \<times> vararg list)" where
  "str_format_directive d ap =
     (if d = 115 then
        (case ap of ArgStr s # ap1 \<Rightarrow> Inr (s, ap1) | _ \<Rightarrow> Inl BadVaArg)
      else if d = 105 then
        (case ap of ArgInt d_num # ap1 \<Rightarrow> Inr (dec_int (sint d_num), ap1) | _ \<Rightarrow> Inl BadVaArg)
      else if d = 108 then
        (case ap of ArgLLong l_num # ap1 \<Rightarrow> Inr (dec_int (sint l_num), ap1) | _ \<Rightarrow> Inl BadVaArg)
      else if d = 117 then
        (case ap of ArgULLong u_num # ap1 \<Rightarrow> Inr (dec_int (uint u_num), ap1) | _ \<Rightarrow> Inl BadVaArg)
      else if d = 102 then
        (case ap of ArgDouble f_txt # ap1 \<Rightarrow> Inr (f_txt, ap1) | _ \<Rightarrow> Inl BadVaArg)
      else Inr ([63, 63, 63], ap))"

text \<open>The \<^verbatim>\<open>do ... while\<close> loop, entered with \<^verbatim>\<open>fmt\<close> at a byte that is not the
  terminator; the empty list is the loop condition finding the terminator.  \<^verbatim>\<open>self\<close> may
  be null, since the source checks no result inside the loop: \<^verbatim>\<open>vec_extend\<close>,
  \<^verbatim>\<open>vec_set\<close> and \<^verbatim>\<open>str_append\<close> then fail their assertion on \<^verbatim>\<open>self\<close>.\<close>

fun str_format_loop ::
  "str_t option \<Rightarrow> cstring \<Rightarrow> vararg list \<Rightarrow> size_t \<Rightarrow> heap \<Rightarrow> error + (str_t option \<times> heap)" where
  "str_format_loop self [] ap pos h = Inr (self, h)"
| "str_format_loop self (c # fmt) ap pos h =
     (if c \<noteq> 37 then
        (case self of
           None \<Rightarrow> Inl AssertFail
         | Some s \<Rightarrow>
             (case vec_extend s 1 h of
                Inl e \<Rightarrow> Inl e
              | Inr (None, h1) \<Rightarrow> Inl AssertFail
              | Inr (Some s1, h1) \<Rightarrow>
                  (case vec_set s1 pos (c_mem (c # fmt)) h1 of
                     Inl e \<Rightarrow> Inl e
                   | Inr (s2, h2) \<Rightarrow> str_format_loop (Some s2) fmt ap (pos + 1) h2)))
      else
        (case fmt of
           [] \<Rightarrow> Inr (self, h)
         | d # fmt1 \<Rightarrow>
             (case str_format_directive d ap of
                Inl e \<Rightarrow> Inl e
              | Inr (txt, ap1) \<Rightarrow>
                  (case self of
                     None \<Rightarrow> Inl AssertFail
                   | Some s \<Rightarrow>
                       (case str_append s txt h of
                          Inl e \<Rightarrow> Inl e
                        | Inr (self1, h1) \<Rightarrow>
                            str_format_loop self1 fmt1 ap1 (pos + strlen txt) h1)))))"

definition str_format ::
  "str_t \<Rightarrow> cstring \<Rightarrow> vararg list \<Rightarrow> heap \<Rightarrow> error + (str_t option \<times> heap)" where
  "str_format self fmt ap h =
     (if fmt = [] then Inr (Some self, h)
      else
        (case str_clear self h of
           Inl e \<Rightarrow> Inl e
         | Inr (self1, h1) \<Rightarrow> str_format_loop self1 fmt ap 0 h1))"


section \<open>Properties\<close>

subsection \<open>Vocabulary of the statements\<close>

text \<open>The bytes of a literal, the string \<^verbatim>\<open>str_new\<close> builds from a literal shorter than the
  initial capacity, the content of a vector read by its length, and the content a call
  returns.\<close>

definition c_str :: "string \<Rightarrow> cstring" where
  "c_str s = map of_char s"

definition str_lit :: "string \<Rightarrow> str_t" where
  "str_lit s = \<lparr>unit_size = 1, capacity = 128, count = of_nat (length s),
                 data = c_str s @ replicate (128 - length s) 0\<rparr>"

definition str_bytes :: "'a vec_obj_t \<Rightarrow> 'a list" where
  "str_bytes v = take (unat (count v)) (data v)"

definition content_of :: "error + ('a vec_obj_t option \<times> heap) \<Rightarrow> error + 'a list option" where
  "content_of r =
     (case r of
        Inl e \<Rightarrow> Inl e
      | Inr (None, h) \<Rightarrow> Inr None
      | Inr (Some v, h) \<Rightarrow> Inr (Some (str_bytes v)))"

text \<open>The invariant of the data model, and the zero tail: the items the allocation holds
  at the positions from \<open>count\<close> up to \<open>capacity\<close> are zero.\<close>

definition count_le_capacity :: "'a vec_obj_t \<Rightarrow> bool" where
  "count_le_capacity v = (count v \<le> capacity v)"

definition zero_tail :: "('a::zero) vec_obj_t \<Rightarrow> bool" where
  "zero_tail v =
     list_all (\<lambda>x. x = 0) (drop (unat (count v)) (take (unat (capacity v)) (data v)))"

text \<open>No allocation request that the oracle still holds fails.\<close>

definition no_failure :: "heap \<Rightarrow> bool" where
  "no_failure h = (False \<notin> set h)"

text \<open>The byte one past the reported length, read as the source reads \<^verbatim>\<open>self[count]\<close>.\<close>

definition terminator :: "str_t \<Rightarrow> error + byte" where
  "terminator self = load (data self) (count self)"

text \<open>The vocabulary of the search.  The pattern occurs at an offset; a border of the
  prefix of length \<open>q\<close> of the pattern is a proper prefix of it that is also its suffix,
  and the prefix table holds the length of the longest one; in the scan, the \<open>q\<close> bytes
  before the offset \<open>i\<close> are the first \<open>q\<close> bytes of the pattern.\<close>

definition occurs :: "'a list \<Rightarrow> 'a list \<Rightarrow> nat \<Rightarrow> bool" where
  "occurs s p k \<longleftrightarrow> k + length p \<le> length s \<and> (\<forall>t<length p. s ! (k + t) = p ! t)"

definition is_border :: "'a list \<Rightarrow> nat \<Rightarrow> nat \<Rightarrow> bool" where
  "is_border p q b \<longleftrightarrow> b < q \<and> q \<le> length p \<and> (\<forall>t<b. p ! t = p ! (q - b + t))"

definition longest_border :: "'a list \<Rightarrow> nat \<Rightarrow> nat" where
  "longest_border p q = Max {b. is_border p q b}"

definition partial_match :: "'a list \<Rightarrow> 'a list \<Rightarrow> nat \<Rightarrow> nat \<Rightarrow> bool" where
  "partial_match s p i q \<longleftrightarrow> q \<le> i \<and> i \<le> length s \<and> q \<le> length p \<and> (\<forall>t<q. s ! (i - q + t) = p ! t)"

text \<open>The two index vectors of the search: the prefix table as \<^verbatim>\<open>vec_new_len\<close> returns it for
  a pattern that fits the initial capacity, filled up to an index; and the vector of the
  offsets, which holds a free item after every append.\<close>

definition lps_table :: "'a list \<Rightarrow> vec_index_t \<Rightarrow> bool" where
  "lps_table p lps \<longleftrightarrow>
     count lps = of_nat (length p) \<and> length (data lps) = 128 \<and> length p \<le> 128"

definition lps_filled :: "'a list \<Rightarrow> vec_index_t \<Rightarrow> nat \<Rightarrow> bool" where
  "lps_filled p lps i \<longleftrightarrow> (\<forall>k<i. data lps ! k = of_nat (longest_border p (Suc k)))"

definition pos_wf :: "vec_index_t \<Rightarrow> bool" where
  "pos_wf v \<longleftrightarrow>
     count v < capacity v \<and> length (data v) = unat (capacity v)
     \<and> unat (capacity v) \<le> 128 + 2 * unat (count v)"

subsection \<open>The examples of the test suite\<close>

lemma str_new_examples:
  "str_new (c_str ''ciao mondo'') [] = Inr (Some (str_lit ''ciao mondo''), [])"
  "str_new (c_str ''ciao mondo ciao'') [] = Inr (Some (str_lit ''ciao mondo ciao''), [])"
  "str_new (c_str ''hi mondo hi'') [] = Inr (Some (str_lit ''hi mondo hi''), [])"
  "str_new (c_str ''ABABACCABA'') [] = Inr (Some (str_lit ''ABABACCABA''), [])"
  "str_new (c_str ''hi '') [] = Inr (Some (str_lit ''hi ''), [])"
  "str_new (c_str ''hello'') [] = Inr (Some (str_lit ''hello''), [])"
  "str_new (c_str ''abc'') [] = Inr (Some (str_lit ''abc''), [])"
  by code_simp+

lemma str_find_example:
  "map_option content_of (str_find (str_lit ''ABABACCABA'') (c_str ''ABA'') [])
     = Some (Inr (Some [0, 2, 7]))"
  by code_simp

lemma str_replace_examples:
  "map_option content_of (str_replace (str_lit ''ciao mondo ciao'') (c_str ''ciao'') (c_str ''hi'') (- 1) [])
     = Some (Inr (Some (c_str ''hi mondo hi'')))"
  "map_option content_of (str_replace (str_lit ''hi mondo hi'') (c_str ''hi'') (c_str ''ciao'') (- 1) [])
     = Some (Inr (Some (c_str ''ciao mondo ciao'')))"
  "map_option content_of (str_replace (str_lit ''ABABACCABA'') (c_str ''A'') (c_str ''F'') 1 [])
     = Some (Inr (Some (c_str ''FBABACCABA'')))"
  "map_option content_of (str_replace (str_lit ''ABABACCABA'') (c_str ''A'') (c_str ''F'') (- 1) [])
     = Some (Inr (Some (c_str ''FBFBFCCFBF'')))"
  by code_simp+

subsection \<open>Claims settled by running the code\<close>

text \<open>
  C1 (count never exceeds capacity, also when \<^verbatim>\<open>vec_new_len\<close> is asked for more items
  than the initial capacity and when \<^verbatim>\<open>vec_resize\<close> jumps past the doubled capacity).
  The code breaks the invariant in both cases: \<^verbatim>\<open>vec_new_len(1, 129)\<close> returns
  count 129 with capacity 128, and resizing the empty vector to 300 items doubles the
  capacity once and returns count 300 with capacity 256.
\<close>

theorem vec_count_exceeds_capacity:
  "vec_new_len 1 129 []
     = (Some \<lparr>unit_size = 1, capacity = 128, count = 129, data = replicate 128 (0 :: byte)\<rparr>, [])
   \<and> \<not> count_le_capacity
         \<lparr>unit_size = 1, capacity = 128, count = 129, data = replicate 128 (0 :: byte)\<rparr>
   \<and> vec_new 1 []
     = (Some \<lparr>unit_size = 1, capacity = 128, count = 0, data = replicate 128 (0 :: byte)\<rparr>, [])
   \<and> vec_resize \<lparr>unit_size = 1, capacity = 128, count = 0, data = replicate 128 (0 :: byte)\<rparr>
         300 []
     = Inr (Some \<lparr>unit_size = 1, capacity = 256, count = 300, data = replicate 256 0\<rparr>, [])
   \<and> \<not> count_le_capacity
         \<lparr>unit_size = 1, capacity = 256, count = 300, data = replicate 256 (0 :: byte)\<rparr>"
  by (simp add: vec_new_def vec_new_len_def alloc_def VEC_INIT_CAPACITY_def vec_resize_def
      memset0_def realloc_data_def count_le_capacity_def replicate_add [symmetric])


text \<open>
  C2 (after every successful mutating string operation the byte at offset \<open>count\<close> is 0).
  \<^verbatim>\<open>str_format\<close> appends a literal byte of the format with \<^verbatim>\<open>vec_extend\<close> and
  \<^verbatim>\<open>vec_set\<close>, not with \<^verbatim>\<open>str_append\<close> as its directives do, so no terminator is written:
  formatting \<^verbatim>\<open>"a"\<close> into the string \<^verbatim>\<open>"hello"\<close> returns length 1 with the old byte \<^verbatim>\<open>'e'\<close>
  (101) at offset 1.
\<close>

theorem str_format_literal_leaves_no_terminator:
  "str_format (str_lit ''hello'') (c_str ''a'') [] []
     = Inr (Some \<lparr>unit_size = 1, capacity = 128, count = 1,
                    data = c_str ''aello'' @ replicate 123 0\<rparr>, [])
   \<and> terminator \<lparr>unit_size = 1, capacity = 128, count = 1,
                    data = c_str ''aello'' @ replicate 123 0\<rparr> = Inr 101"
  by code_simp

text \<open>
  C3 (\<^verbatim>\<open>str_find\<close> returns the offsets of the occurrences, for every non-empty pattern).
  The prefix table comes from \<^verbatim>\<open>vec_new_len(sizeof(size_t), m)\<close>, which holds 128 items
  whatever \<open>m\<close> is, so a pattern of 129 bytes makes \<^verbatim>\<open>kmp_compute_lps\<close> write the table
  entry 128 past the end of the allocation.  With 128 bytes the search returns: the
  pattern does not occur in \<^verbatim>\<open>"A"\<close> and the result is the empty sequence.
\<close>

theorem str_find_long_pattern_out_of_bounds:
  "str_find (str_lit ''A'') (replicate 129 65) [] = Some (Inl OutOfBounds)
   \<and> map_option content_of (str_find (str_lit ''A'') (replicate 128 65) []) = Some (Inr (Some []))"
  by code_simp

text \<open>
  C4 (\<^verbatim>\<open>str_replace\<close> replaces the occurrences from left to right).  When the
  replacement is shorter, \<^verbatim>\<open>str_extend\<close> writes the terminator at the new length before
  the rest of the string is moved down, so a byte of the rest is lost: replacing
  \<^verbatim>\<open>"ciao"\<close> by \<^verbatim>\<open>"hi"\<close> in \<^verbatim>\<open>"ciao mondo"\<close> returns \<^verbatim>\<open>"hi mon\0o"\<close>, not \<^verbatim>\<open>"hi mondo"\<close>.
\<close>

theorem str_replace_shrinking_loses_byte:
  "map_option content_of
     (str_replace (str_lit ''ciao mondo'') (c_str ''ciao'') (c_str ''hi'') (- 1) [])
     = Some (Inr (Some (c_str ''hi mon'' @ [0] @ c_str ''o'')))
   \<and> c_str ''hi mon'' @ [0] @ c_str ''o'' \<noteq> c_str ''hi mondo''"
  by code_simp

text \<open>
  C8 (\<^verbatim>\<open>str_repeat\<close> with a count of at least 1 yields length \<open>length * count\<close>).
  The code extends the string by \<open>length * count\<close>, on top of the length it has: repeating
  \<^verbatim>\<open>"hi "\<close> 6 times returns 21 bytes, the 18 expected ones and three zero bytes.  A
  count of 0 returns the string as it is.
\<close>

theorem str_repeat_one_slot_too_long:
  "content_of (str_repeat (str_lit ''hi '') 6 [])
     = Inr (Some (c_str ''hi hi hi hi hi hi '' @ [0, 0, 0]))
   \<and> map_sum id (map_option length) (content_of (str_repeat (str_lit ''hi '') 6 []))
     = Inr (Some 21)
   \<and> content_of (str_repeat (str_lit ''hi '') 0 []) = Inr (Some (c_str ''hi ''))"
  by code_simp

text \<open>
  C9 (\<^verbatim>\<open>str_format\<close> clears the string first; an empty format gives the empty string).
  The code returns on an empty format before it clears: formatting \<^verbatim>\<open>""\<close> into
  \<^verbatim>\<open>"hello"\<close> returns \<^verbatim>\<open>"hello"\<close>.
\<close>

theorem str_format_empty_fmt_keeps_content:
  "content_of (str_format (str_lit ''hello'') [] [] []) = Inr (Some (c_str ''hello''))
   \<and> c_str ''hello'' \<noteq> []"
  by code_simp


subsection \<open>Claims proved in general\<close>

text \<open>What a growing \<^verbatim>\<open>vec_resize\<close> clears, and what \<^verbatim>\<open>vec_copy\<close> leaves alone.\<close>

lemma zero_tail_iff:
  "zero_tail v \<longleftrightarrow>
     (\<forall>x \<in> set (drop (unat (count v)) (take (unat (capacity v)) (data v))). x = 0)"
  by (simp add: zero_tail_def list_all_iff)

lemma vec_new_len_zero_tail: "vec_new_len us cnt h = (Some v, h') \<Longrightarrow> zero_tail v"
  by (auto simp: vec_new_len_def zero_tail_iff split: prod.splits bool.splits
      dest: in_set_dropD in_set_takeD)

lemma memset0_grow:
  assumes "memset0 (realloc_data d (unat cap)) old (cap - old) = Some d'"
  shows "d' = take (unat old) (realloc_data d (unat cap)) @ replicate (unat cap - unat old) 0
         \<and> unat old \<le> unat cap"
proof -
  let ?d1 = "realloc_data d (unat cap)"
  have len: "length ?d1 = unat cap" by (simp add: realloc_data_def)
  from assms have le: "unat old + unat (cap - old) \<le> unat cap"
    and d': "d' = take (unat old) ?d1 @ replicate (unat (cap - old)) 0
                   @ drop (unat old + unat (cap - old)) ?d1"
    by (auto simp: memset0_def len split: if_splits)
  have b: "old + (cap - old) = cap" by simp
  have "unat old + unat (cap - old) < 2 ^ LENGTH(64)"
    using le unsigned_less [of cap, where 'a = nat] by simp
  then have "unat (old + (cap - old)) = unat old + unat (cap - old)"
    by (rule unat_add_lem [THEN iffD1])
  then have eq: "unat cap = unat old + unat (cap - old)" unfolding b .
  then show ?thesis using d' len by simp
qed

lemma vec_resize_zero_tail:
  assumes "zero_tail v" "count v \<le> n" "vec_resize v n h = Inr (Some v', h')"
  shows "zero_tail v'"
proof (cases "capacity v \<le> n")
  case True
  with assms(3) obtain d' where
    m: "memset0 (realloc_data (data v) (unat (capacity v * 2))) (count v)
          (capacity v * 2 - count v) = Some d'"
    and v': "v' = v\<lparr>capacity := capacity v * 2, count := n, data := d'\<rparr>"
    by (auto simp: vec_resize_def Let_def split: prod.splits bool.splits option.splits)
  from memset0_grow [OF m] have
    d': "d' = take (unat (count v)) (realloc_data (data v) (unat (capacity v * 2)))
              @ replicate (unat (capacity v * 2) - unat (count v)) 0"
    and le: "unat (count v) \<le> unat (capacity v * 2)" by auto
  have len: "length (realloc_data (data v) (unat (capacity v * 2))) = unat (capacity v * 2)"
    by (simp add: realloc_data_def)
  have "unat (count v) \<le> unat n" using assms(2) by (simp add: word_le_nat_alt)
  then show ?thesis
    using le len by (auto simp: v' d' zero_tail_iff dest!: in_set_dropD in_set_takeD)
next
  case False
  with assms(3) have v': "v' = v\<lparr>count := n\<rparr>"
    by (auto simp: vec_resize_def Let_def)
  have "unat (count v) \<le> unat n" using assms(2) by (simp add: word_le_nat_alt)
  then have "set (drop (unat n) (take (unat (capacity v)) (data v)))
      \<subseteq> set (drop (unat (count v)) (take (unat (capacity v)) (data v)))"
    by (rule set_drop_subset_set_drop)
  then show ?thesis using assms(1) by (auto simp: v' zero_tail_iff)
qed

lemma memcpy_drop:
  assumes "memcpy d p b l = Some d'" "unat p + unat l \<le> c"
  shows "drop c d' = drop c d" "length d' = length d"
proof -
  from assms(1) have le: "unat p + unat l \<le> length d" "unat l \<le> length b"
    and d': "d' = take (unat p) d @ take (unat l) b @ drop (unat p + unat l) d"
    by (auto simp: memcpy_def split: if_splits)
  have l1: "length (take (unat p) d) = unat p" "length (take (unat l) b) = unat l"
    using le by auto
  show "drop c d' = drop c d" using assms(2) le by (simp add: d' l1)
  show "length d' = length d" using le by (simp add: d' l1)
qed

lemma vec_copy_tail:
  assumes "vec_copy v pos items len h = Inr (v', h')"
  shows "drop (unat (count v)) (data v') = drop (unat (count v)) (data v)
         \<and> count v' = count v \<and> capacity v' = capacity v \<and> unit_size v' = unit_size v
         \<and> length (data v') = length (data v)"
proof (cases "len = 0 \<or> count v \<le> pos")
  case True
  with assms show ?thesis by (auto simp: vec_copy_def split: if_splits)
next
  case False
  then have lt: "pos < count v" and nz: "len \<noteq> 0" by (simp_all add: not_le)
  define l where "l = (if count v - pos < len then count v - pos else len)"
  have ptr: "vec_ptr_at v pos = pos" using lt by (auto simp: vec_ptr_at_def)
  from assms False obtain b d' where
    m: "memcpy (data v) pos b l = Some d'" and v': "v' = v\<lparr>data := d'\<rparr>"
    by (auto simp: vec_copy_def Let_def ptr l_def split: prod.splits option.splits)
  have "l \<le> count v - pos" by (simp add: l_def not_less)
  then have "unat l \<le> unat (count v) - unat pos"
    by (simp add: word_le_nat_alt unat_sub [OF less_imp_le [OF lt]])
  moreover have "unat pos < unat (count v)" using lt by (simp add: word_less_nat_alt)
  ultimately have "unat pos + unat l \<le> unat (count v)" by simp
  from memcpy_drop [OF m this] show ?thesis by (simp add: v')
qed

lemma vec_copy_zero_tail:
  assumes "zero_tail v" "vec_copy v pos items len h = Inr (v', h')"
  shows "zero_tail v'"
  using assms(1) vec_copy_tail [OF assms(2)]
  by (simp add: zero_tail_def drop_take)

lemma vec_resize_shrink:
  assumes "n < capacity v"
  shows "vec_resize v n h = Inr (Some (v\<lparr>count := n\<rparr>), h)"
proof -
  from assms have "\<not> capacity v \<le> n" by (simp add: not_le)
  then show ?thesis by (simp add: vec_resize_def)
qed

text \<open>
  C7 (the items at the positions from \<open>count\<close> up to \<open>capacity\<close> are zero after every
  mutating call, a resize to a smaller count included).  The claim fails for the resize
  to a smaller count, which changes nothing but \<open>count\<close>: a vector of 4 bytes whose first
  byte has been set to 97 still holds that byte at position 0 after it is resized to 0.
\<close>

theorem vec_resize_shrink_keeps_items:
  "vec_new_len 1 4 []
     = (Some \<lparr>unit_size = 1, capacity = 128, count = 4, data = replicate 128 (0 :: byte)\<rparr>, [])
   \<and> vec_set \<lparr>unit_size = 1, capacity = 128, count = 4, data = replicate 128 (0 :: byte)\<rparr>
        0 [97] []
     = Inr (\<lparr>unit_size = 1, capacity = 128, count = 4, data = 97 # replicate 127 (0 :: byte)\<rparr>, [])
   \<and> vec_resize \<lparr>unit_size = 1, capacity = 128, count = 4, data = 97 # replicate 127 (0 :: byte)\<rparr>
        0 []
     = Inr (Some \<lparr>unit_size = 1, capacity = 128, count = 0,
                    data = 97 # replicate 127 (0 :: byte)\<rparr>, [])
   \<and> \<not> zero_tail
         \<lparr>unit_size = 1, capacity = 128, count = 0, data = 97 # replicate 127 (0 :: byte)\<rparr>"
  by code_simp

text \<open>
  C7 as amended: a new vector has a zero tail, and on a vector that has one, every
  \<^verbatim>\<open>vec_resize\<close> and \<^verbatim>\<open>vec_extend\<close> that does not lower \<open>count\<close> and every \<^verbatim>\<open>vec_copy\<close>
  and \<^verbatim>\<open>vec_set\<close> returns a vector that has one; a resize to a count below \<open>count\<close> and
  \<open>capacity\<close> changes \<open>count\<close> and nothing else.
\<close>

theorem zero_tail_unless_shrunk:
  "(vec_new_len us cnt h = (Some v0, h0) \<longrightarrow> zero_tail v0)
   \<and> (zero_tail v \<and> count v \<le> n \<and> vec_resize v n h = Inr (Some v1, h1) \<longrightarrow> zero_tail v1)
   \<and> (zero_tail v \<and> count v \<le> count v + k \<and> vec_extend v k h = Inr (Some v2, h2)
        \<longrightarrow> zero_tail v2)
   \<and> (zero_tail v \<and> vec_copy v pos items len h = Inr (v3, h3) \<longrightarrow> zero_tail v3)
   \<and> (zero_tail v \<and> vec_set v pos item h = Inr (v4, h4) \<longrightarrow> zero_tail v4)
   \<and> (m < count v \<and> m < capacity v \<longrightarrow> vec_resize v m h = Inr (Some (v\<lparr>count := m\<rparr>), h))"
  using vec_new_len_zero_tail [of us cnt h v0 h0]
    vec_resize_zero_tail [of v n h v1 h1]
    vec_resize_zero_tail [of v "count v + k" h v2 h2]
    vec_copy_zero_tail [of v pos items len h v3 h3]
    vec_copy_zero_tail [of v pos item 1 h v4 h4]
    vec_resize_shrink [of m v h]
  by (simp add: vec_extend_def vec_set_def vec_count_def)

theorem zero_tail_unless_shrunk_witness:
  "zero_tail (str_lit ''abc'')
   \<and> count (str_lit ''abc'') \<le> 200
   \<and> vec_resize (str_lit ''abc'') 200 []
       = Inr (Some \<lparr>unit_size = 1, capacity = 256, count = 200,
                      data = c_str ''abc'' @ replicate 253 0\<rparr>, [])
   \<and> zero_tail \<lparr>unit_size = 1, capacity = 256, count = 200,
                  data = c_str ''abc'' @ replicate 253 0\<rparr>
   \<and> count (str_lit ''abc'') \<le> count (str_lit ''abc'') + 2
   \<and> vec_extend (str_lit ''abc'') 2 []
       = Inr (Some \<lparr>unit_size = 1, capacity = 128, count = 5,
                      data = c_str ''abc'' @ replicate 125 0\<rparr>, [])
   \<and> zero_tail \<lparr>unit_size = 1, capacity = 128, count = 5,
                  data = c_str ''abc'' @ replicate 125 0\<rparr>
   \<and> vec_copy (str_lit ''abc'') 1 (c_str ''xyz'') 3 []
       = Inr (\<lparr>unit_size = 1, capacity = 128, count = 3,
                data = c_str ''axy'' @ replicate 125 0\<rparr>, [])
   \<and> zero_tail \<lparr>unit_size = 1, capacity = 128, count = 3,
                  data = c_str ''axy'' @ replicate 125 0\<rparr>
   \<and> vec_set (str_lit ''abc'') 1 (c_str ''z'') []
       = Inr (\<lparr>unit_size = 1, capacity = 128, count = 3,
                data = c_str ''azc'' @ replicate 125 0\<rparr>, [])
   \<and> zero_tail \<lparr>unit_size = 1, capacity = 128, count = 3,
                  data = c_str ''azc'' @ replicate 125 0\<rparr>
   \<and> (1 :: size_t) < count (str_lit ''abc'') \<and> (1 :: size_t) < capacity (str_lit ''abc'')
   \<and> vec_resize (str_lit ''abc'') 1 [] = Inr (Some ((str_lit ''abc'')\<lparr>count := 1\<rparr>), [])
   \<and> vec_new_len 1 3 ([] :: heap)
       = (Some \<lparr>unit_size = 1, capacity = 128, count = 3, data = replicate 128 (0 :: byte)\<rparr>, [])
   \<and> zero_tail \<lparr>unit_size = 1, capacity = 128, count = 3, data = replicate 128 (0 :: byte)\<rparr>"
proof -
  have facts:
    "zero_tail (str_lit ''abc'')"
    "count (str_lit ''abc'') \<le> 200"
    "vec_resize (str_lit ''abc'') 200 []
       = Inr (Some \<lparr>unit_size = 1, capacity = 256, count = 200,
                      data = c_str ''abc'' @ replicate 253 0\<rparr>, [])"
    "count (str_lit ''abc'') \<le> count (str_lit ''abc'') + 2"
    "vec_extend (str_lit ''abc'') 2 []
       = Inr (Some \<lparr>unit_size = 1, capacity = 128, count = 5,
                      data = c_str ''abc'' @ replicate 125 0\<rparr>, [])"
    "vec_copy (str_lit ''abc'') 1 (c_str ''xyz'') 3 []
       = Inr (\<lparr>unit_size = 1, capacity = 128, count = 3,
                data = c_str ''axy'' @ replicate 125 0\<rparr>, [])"
    "vec_set (str_lit ''abc'') 1 (c_str ''z'') []
       = Inr (\<lparr>unit_size = 1, capacity = 128, count = 3,
                data = c_str ''azc'' @ replicate 125 0\<rparr>, [])"
    "(1 :: size_t) < count (str_lit ''abc'')" "(1 :: size_t) < capacity (str_lit ''abc'')"
    "vec_new_len 1 3 ([] :: heap)
       = (Some \<lparr>unit_size = 1, capacity = 128, count = 3, data = replicate 128 (0 :: byte)\<rparr>, [])"
    by code_simp+
  show ?thesis
    using facts
      zero_tail_unless_shrunk [where v = "str_lit ''abc''" and n = 200 and h = "[]" and k = 2
        and pos = 1 and items = "c_str ''xyz''" and len = 3 and item = "c_str ''z''" and m = 1
        and us = 1 and cnt = 3
        and ?v0.0 = "\<lparr>unit_size = 1, capacity = 128, count = 3, data = replicate 128 (0 :: byte)\<rparr>"
        and ?h0.0 = "[]"
        and ?v1.0 = "\<lparr>unit_size = 1, capacity = 256, count = 200,
                      data = c_str ''abc'' @ replicate 253 0\<rparr>" and ?h1.0 = "[]"
        and ?v2.0 = "\<lparr>unit_size = 1, capacity = 128, count = 5,
                      data = c_str ''abc'' @ replicate 125 0\<rparr>" and ?h2.0 = "[]"
        and ?v3.0 = "\<lparr>unit_size = 1, capacity = 128, count = 3,
                      data = c_str ''axy'' @ replicate 125 0\<rparr>" and ?h3.0 = "[]"
        and ?v4.0 = "\<lparr>unit_size = 1, capacity = 128, count = 3,
                      data = c_str ''azc'' @ replicate 125 0\<rparr>" and ?h4.0 = "[]"]
    by simp
qed


text \<open>The clamp of \<^verbatim>\<open>vec_ptr_at\<close>.\<close>

lemma vec_ptr_at_nonempty:
  assumes "1 \<le> count v"
  shows "vec_ptr_at v pos = min pos (count v - 1)" "vec_ptr_at v pos < count v"
proof -
  have u: "unat (count v - 1) = unat (count v) - 1" using assms by (simp add: unat_sub)
  have p: "0 < unat (count v)" using assms by (simp add: word_le_nat_alt)
  show "vec_ptr_at v pos = min pos (count v - 1)"
    using u p by (auto simp: vec_ptr_at_def min_def word_le_nat_alt word_unat_eq_iff)
  show "vec_ptr_at v pos < count v"
    using u p by (auto simp: vec_ptr_at_def word_le_nat_alt word_less_nat_alt)
qed

lemma vec_get_nonempty:
  assumes "1 \<le> count v" "count v \<le> capacity v" "length (data v) = unat (capacity v)"
  shows "vec_get v pos = Inr (data v ! unat (min pos (count v - 1)))"
proof -
  have "unat (vec_ptr_at v pos) < unat (capacity v)"
    using vec_ptr_at_nonempty(2) [OF assms(1), of pos] assms(2)
    by (simp add: word_le_nat_alt word_less_nat_alt)
  then show ?thesis
    using assms(3) vec_ptr_at_nonempty(1) [OF assms(1), of pos] by (simp add: vec_get_def Let_def)
qed

lemma vec_ptr_at_empty:
  assumes "count v = 0" "pos \<noteq> 0"
  shows "vec_ptr_at v pos = - 1"
  using assms by (simp add: vec_ptr_at_def)

lemma vec_get_empty:
  assumes "count v = 0" "pos \<noteq> 0" "length (data v) = unat (capacity v)"
  shows "vec_get v pos = Inl OutOfBounds"
proof -
  have "unat (capacity v) \<le> unat (- 1 :: size_t)"
    by (metis word_le_nat_alt word_order.extremum max_word_max word_n1_ge)
  then show ?thesis
    using assms by (auto simp: vec_ptr_at_def vec_get_def Let_def)
qed

lemma unat_minus_1_size: "unat (- 1 :: size_t) = 2 ^ 64 - 1"
  by (simp add: unsigned_minus_1_eq_mask mask_eq_exp_minus_1)

lemma not_less_minus_1_size: "\<not> (- 1 :: size_t) < c"
  by (simp add: not_less)

text \<open>
  C10 (\<^verbatim>\<open>vec_ptr_at\<close> yields an in-bounds element pointer only when \<open>count\<close> is at least 1).
  On such a vector the pointer is that of element \<open>min pos (count - 1)\<close>, an element below
  \<open>count\<close>, position 0 giving the base handle, and \<^verbatim>\<open>vec_get\<close> reads that element.  On an
  empty vector any position other than 0 gives the element index \<open>0 - 1\<close>, which wraps to
  \<open>2 ^ 64 - 1\<close>: it is not below the capacity, and \<^verbatim>\<open>vec_get\<close> reads outside the allocation.
\<close>

theorem vec_ptr_at_clamps_when_nonempty:
  "(1 \<le> count v \<longrightarrow> vec_ptr_at v pos = min pos (count v - 1) \<and> vec_ptr_at v pos < count v)
   \<and> (1 \<le> count v \<and> count v \<le> capacity v \<and> length (data v) = unat (capacity v)
        \<longrightarrow> vec_get v pos = Inr (data v ! unat (min pos (count v - 1))))
   \<and> vec_ptr_at v 0 = 0
   \<and> (count v = 0 \<and> pos \<noteq> 0
        \<longrightarrow> vec_ptr_at v pos = 0 - 1 \<and> unat (vec_ptr_at v pos) = 2 ^ 64 - 1
            \<and> \<not> vec_ptr_at v pos < capacity v)
   \<and> (count v = 0 \<and> pos \<noteq> 0 \<and> length (data v) = unat (capacity v)
        \<longrightarrow> vec_get v pos = Inl OutOfBounds)"
  using vec_ptr_at_nonempty [of v pos] vec_get_nonempty [of v pos]
    vec_ptr_at_empty [of v pos] vec_get_empty [of v pos]
  by (auto simp: vec_ptr_at_def unat_minus_1_size not_less_minus_1_size)

theorem vec_ptr_at_clamps_when_nonempty_witness:
  "1 \<le> count (str_lit ''abc'') \<and> count (str_lit ''abc'') \<le> capacity (str_lit ''abc'')
   \<and> length (data (str_lit ''abc'')) = unat (capacity (str_lit ''abc''))
   \<and> vec_ptr_at (str_lit ''abc'') 7 = 2 \<and> vec_get (str_lit ''abc'') 7 = Inr 99
   \<and> count (str_lit []) = 0 \<and> (7 :: size_t) \<noteq> 0
   \<and> length (data (str_lit [])) = unat (capacity (str_lit []))
   \<and> vec_ptr_at (str_lit []) 7 = 18446744073709551615
   \<and> vec_get (str_lit []) 7 = Inl OutOfBounds"
proof -
  have facts:
    "1 \<le> count (str_lit ''abc'')" "count (str_lit ''abc'') \<le> capacity (str_lit ''abc'')"
    "length (data (str_lit ''abc'')) = unat (capacity (str_lit ''abc''))"
    "count (str_lit []) = 0" "(7 :: size_t) \<noteq> 0"
    "length (data (str_lit [])) = unat (capacity (str_lit []))"
    "min (7 :: size_t) (count (str_lit ''abc'') - 1) = 2"
    "data (str_lit ''abc'') ! unat (2 :: size_t) = 99"
    by (simp_all add: str_lit_def c_str_def)
  show ?thesis
    using facts vec_ptr_at_clamps_when_nonempty [of "str_lit ''abc''" 7]
      vec_ptr_at_clamps_when_nonempty [of "str_lit []" 7]
    by simp
qed


text \<open>While no allocation fails, no call returns the null handle.\<close>

lemma alloc_ok: "alloc h = (b, h') \<Longrightarrow> no_failure h \<Longrightarrow> b \<and> no_failure h'"
  by (auto simp: alloc_def no_failure_def split: list.splits)

lemma vec_new_len_ok:
  "vec_new_len us cnt h = (x, h') \<Longrightarrow> no_failure h \<Longrightarrow> x \<noteq> None \<and> no_failure h'"
  by (auto simp: vec_new_len_def split: prod.splits bool.splits dest: alloc_ok)

lemma vec_resize_ok:
  "vec_resize v n h = Inr (x, h') \<Longrightarrow> no_failure h \<Longrightarrow> x \<noteq> None \<and> no_failure h'"
  by (auto simp: vec_resize_def Let_def split: if_splits prod.splits bool.splits option.splits
      dest: alloc_ok)

lemma vec_extend_ok:
  "vec_extend v k h = Inr (x, h') \<Longrightarrow> no_failure h \<Longrightarrow> x \<noteq> None \<and> no_failure h'"
  unfolding vec_extend_def by (rule vec_resize_ok)

lemma vec_copy_ok: "vec_copy v pos items len h = Inr (v', h') \<Longrightarrow> no_failure h \<Longrightarrow> no_failure h'"
  by (auto simp: vec_copy_def Let_def split: if_splits prod.splits option.splits
      dest: vec_new_len_ok)

lemma vec_set_ok: "vec_set v pos item h = Inr (v', h') \<Longrightarrow> no_failure h \<Longrightarrow> no_failure h'"
  unfolding vec_set_def by (rule vec_copy_ok)

lemma str_resize_ok:
  "str_resize self sz h = Inr (x, h') \<Longrightarrow> no_failure h \<Longrightarrow> x \<noteq> None \<and> no_failure h'"
  by (auto simp: str_resize_def split: sum.splits prod.splits option.splits
      dest!: vec_resize_ok)

lemma str_extend_ok:
  "str_extend self k h = Inr (x, h') \<Longrightarrow> no_failure h \<Longrightarrow> x \<noteq> None \<and> no_failure h'"
  unfolding str_extend_def by (rule str_resize_ok)

lemma kmp_compute_lps_loop_ok:
  assumes "kmp_compute_lps_loop pat pat_len lps i len h = Some r"
  shows "no_failure h \<longrightarrow> (\<forall>lps' h'. r = Inr (lps', h') \<longrightarrow> no_failure h')"
proof (rule kmp_compute_lps_loop.raw_induct
    [where P = "\<lambda>pat pat_len lps i len h r.
        no_failure h \<longrightarrow> (\<forall>lps' h'. r = Inr (lps', h') \<longrightarrow> no_failure h')",
      OF _ assms], goal_cases)
  case (1 loop pat pat_len lps i len h r)
  from 1(2) show ?case
    by (auto split: if_splits sum.splits prod.splits dest!: vec_set_ok 1(1))
qed

lemma kmp_compute_lps_ok:
  "kmp_compute_lps pat pat_len lps h = Some (Inr (lps', h')) \<Longrightarrow> no_failure h \<Longrightarrow> no_failure h'"
  by (auto simp: kmp_compute_lps_def split: sum.splits dest!: kmp_compute_lps_loop_ok)

lemma str_find_loop_ok:
  assumes "str_find_loop self pat n m lps pos i j h = Some r"
  shows "no_failure h \<longrightarrow> (\<forall>x h'. r = Inr (x, h') \<longrightarrow> x \<noteq> None \<and> no_failure h')"
proof (rule str_find_loop.raw_induct
    [where P = "\<lambda>self pat n m lps pos i j h r.
        no_failure h \<longrightarrow> (\<forall>x h'. r = Inr (x, h') \<longrightarrow> x \<noteq> None \<and> no_failure h')",
      OF _ assms], goal_cases)
  case (1 loop self pat n m lps pos i j h r)
  from 1(2) show ?case
    by (auto simp: Let_def split: if_splits sum.splits prod.splits option.splits
        dest!: vec_set_ok vec_extend_ok 1(1))
qed

lemma str_find_ok:
  assumes "str_find self pat h = Some (Inr (x, h'))" "no_failure h" "strlen pat \<noteq> 0"
  shows "x \<noteq> None \<and> no_failure h'"
  using assms
  by (auto simp: str_find_def Let_def vec_new_def
      split: if_splits sum.splits prod.splits option.splits
      dest!: vec_new_len_ok kmp_compute_lps_ok str_find_loop_ok)

lemma str_find_empty: "strlen pat = 0 \<Longrightarrow> str_find self pat h = Some (Inr (None, h))"
  by (simp add: str_find_def)



lemma str_replace_adjust_ok:
  "str_replace_adjust pos pos_count shift j h = Inr (pos', h') \<Longrightarrow> no_failure h
     \<Longrightarrow> no_failure h'"
proof (induct pos pos_count shift j h rule: str_replace_adjust.induct)
  case (1 pos pos_count shift j h)
  from 1(2) 1(3) show ?case
    by (subst (asm) str_replace_adjust.simps)
      (auto split: if_splits sum.splits prod.splits dest: vec_set_ok intro: 1(1) [OF _ _ _ refl])
qed

lemma str_replace_write_ok:
  "str_replace_write self index new_str len_new j h = Inr (self', h') \<Longrightarrow> no_failure h
     \<Longrightarrow> no_failure h'"
proof (induct self index new_str len_new j h rule: str_replace_write.induct)
  case (1 self index new_str len_new j h)
  from 1(2) 1(3) show ?case
    by (subst (asm) str_replace_write.simps)
      (auto split: if_splits sum.splits prod.splits dest: vec_set_ok intro: 1(1) [OF _ _ refl])
qed



lemma str_replace_loop_ok:
  "str_replace_loop self new_str len_old len_new shift cnt pos pos_count i h = Inr (x, h')
     \<Longrightarrow> no_failure h \<Longrightarrow> x \<noteq> None \<and> no_failure h'"
proof (induct self new_str len_old len_new shift cnt pos pos_count i h
    rule: str_replace_loop.induct)
  case (1 self new_str len_old len_new shift cnt pos pos_count i h)
  note IH = 1(1) and eq = 1(2) and ok = 1(3)
  show ?case
  proof (cases "i < pos_count \<and> \<not> cnt \<le> i")
    case False
    with eq ok show ?thesis
      by (subst (asm) str_replace_loop.simps) (auto split: if_splits)
  next
    case True
    then have c: "i < pos_count" "\<not> cnt \<le> i" by auto
    from eq c obtain index where g: "vec_get pos i = Inr index"
      by (subst (asm) str_replace_loop.simps) (auto split: sum.splits)
    define mid where "mid =
      (if shift \<noteq> 0 then
         (case str_extend self shift h of
            Inl e \<Rightarrow> Inl e
          | Inr (None, h1) \<Rightarrow> Inr (None, h1)
          | Inr (Some s1, h1) \<Rightarrow>
              (case vec_copy s1 (index + len_new)
                      (mem_at s1 (vec_ptr_at s1 (index + len_old)))
                      (str_length s1 - index) h1 of
                 Inl e \<Rightarrow> Inl e
               | Inr (s2, h2) \<Rightarrow>
                   (case str_replace_adjust pos pos_count shift (i + 1) h2 of
                      Inl e \<Rightarrow> Inl e
                    | Inr (pos1, h3) \<Rightarrow> Inr (Some (s2, pos1), h3))))
       else Inr (Some (self, pos), h))"
    from eq c g have eq2:
      "(case mid of
          Inl e \<Rightarrow> Inl e
        | Inr (None, h1) \<Rightarrow> Inr (None, h1)
        | Inr (Some (s2, pos1), h3) \<Rightarrow>
            (case str_replace_write s2 index new_str len_new 0 h3 of
               Inl e \<Rightarrow> Inl e
             | Inr (s3, h4) \<Rightarrow>
                 str_replace_loop s3 new_str len_old len_new shift cnt pos1 pos_count
                   (i + 1) h4)) = Inr (x, h')"
      by (subst (asm) str_replace_loop.simps) (simp add: mid_def)
    have midok: "r \<noteq> None \<and> no_failure hm" if "mid = Inr (r, hm)" for r hm
      using that ok unfolding mid_def
      by (auto split: if_splits sum.splits prod.splits option.splits
          dest!: str_extend_ok vec_copy_ok str_replace_adjust_ok)
    from eq2 obtain r hm where m0: "mid = Inr (r, hm)"
      by (auto split: sum.splits)
    from midok [OF m0] obtain s2 pos1 where r: "r = Some (s2, pos1)" and okm: "no_failure hm"
      by auto
    from eq2 m0 r obtain s3 h4 where
      w: "str_replace_write s2 index new_str len_new 0 hm = Inr (s3, h4)"
      and l: "str_replace_loop s3 new_str len_old len_new shift cnt pos1 pos_count (i + 1) h4
                = Inr (x, h')"
      by (auto split: sum.splits prod.splits)
    have ok4: "no_failure h4" by (rule str_replace_write_ok [OF w okm])
    have m: "mid = Inr (Some (s2, pos1), hm)" using m0 r by simp
    show ?thesis
      by (rule IH [OF c g m [unfolded mid_def] refl refl refl w refl l ok4])
  qed
qed

lemma str_replace_ok:
  assumes "str_replace self old_str new_str cnt h = Some (Inr (x, h'))" "no_failure h"
    "\<not> strlen old_str > str_length self" "strlen old_str \<noteq> 0"
  shows "x \<noteq> None"
  using assms
  by (auto simp: str_replace_def Let_def
      split: if_splits sum.splits prod.splits option.splits
      dest!: str_find_ok str_replace_loop_ok)

lemma str_replace_null:
  "strlen old_str > str_length self \<or> strlen old_str = 0
     \<Longrightarrow> \<exists>h'. str_replace self old_str new_str cnt h = Some (Inr (None, h'))"
  by (auto simp: str_replace_def Let_def str_find_empty)


text \<open>
  C6 (\<^verbatim>\<open>str_find\<close> with an empty pattern returns an empty sequence that is not null).
  The code returns null for the empty pattern, at its guard \<^verbatim>\<open>if (!m) return NULL\<close>, with
  no allocation failing.
\<close>

theorem str_find_empty_pattern_null:
  "str_find (str_lit ''abc'') [] [] = Some (Inr (None, []))"
  by code_simp

text \<open>
  C6 as amended: \<^verbatim>\<open>str_find\<close> returns null for the empty pattern, and for a pattern that
  is not empty it returns null only when an allocation fails.
\<close>

theorem str_find_null_only_if:
  "(strlen pat = 0 \<longrightarrow> str_find self pat h = Some (Inr (None, h)))
   \<and> (str_find self pat h = Some (Inr (None, h')) \<longrightarrow> strlen pat = 0 \<or> \<not> no_failure h)"
  using str_find_empty [of pat self h] str_find_ok [of self pat h None h']
  by auto

theorem str_find_null_only_if_witness:
  "strlen [] = 0 \<and> str_find (str_lit ''abc'') [] [] = Some (Inr (None, []))
   \<and> str_find (str_lit ''abc'') (c_str ''b'') [False] = Some (Inr (None, []))
   \<and> strlen (c_str ''b'') \<noteq> 0 \<and> \<not> no_failure [False]"
proof -
  have facts: "strlen [] = 0" "strlen (c_str ''b'') \<noteq> 0"
    "str_find (str_lit ''abc'') (c_str ''b'') [False] = Some (Inr (None, []))"
    by code_simp+
  show ?thesis
    using facts str_find_null_only_if [where pat = "[]" and self = "str_lit ''abc''" and h = "[]"
        and h' = "[]"]
      str_find_null_only_if [where pat = "c_str ''b''" and self = "str_lit ''abc''"
        and h = "[False]" and h' = "[]"]
    by simp
qed

text \<open>
  C5 (\<^verbatim>\<open>str_replace\<close> returns null if and only if \<open>old\<close> is longer than the string or an
  allocation fails, and a valid handle for an empty \<open>old\<close>).  With an empty \<open>old\<close> the
  code returns null, the null that \<^verbatim>\<open>str_find\<close> returns for the empty pattern, although
  \<open>old\<close> is not longer than the string and no allocation fails.
\<close>

theorem str_replace_empty_old_null:
  "str_replace (str_lit ''abc'') [] (c_str ''x'') (- 1) [] = Some (Inr (None, []))
   \<and> \<not> strlen [] > str_length (str_lit ''abc'')"
  by code_simp

text \<open>
  C5 as amended: \<^verbatim>\<open>str_replace\<close> returns null when \<open>old\<close> is longer than the string and
  when \<open>old\<close> is empty, and otherwise it returns null only when an allocation fails.
\<close>

theorem str_replace_null_only_if:
  "(strlen old_str > str_length self \<or> strlen old_str = 0
      \<longrightarrow> (\<exists>h1. str_replace self old_str new_str cnt h = Some (Inr (None, h1))))
   \<and> (str_replace self old_str new_str cnt h = Some (Inr (None, h'))
      \<longrightarrow> strlen old_str > str_length self \<or> strlen old_str = 0 \<or> \<not> no_failure h)"
  using str_replace_null [of self old_str new_str cnt h]
    str_replace_ok [of self old_str new_str cnt h None h']
  by auto

theorem str_replace_null_only_if_witness:
  "strlen (c_str ''abcd'') > str_length (str_lit ''abc'')
   \<and> (\<exists>h1. str_replace (str_lit ''abc'') (c_str ''abcd'') (c_str ''x'') (- 1) []
              = Some (Inr (None, h1)))
   \<and> str_replace (str_lit ''abc'') (c_str ''b'') (c_str ''x'') (- 1) [False]
       = Some (Inr (None, []))
   \<and> \<not> strlen (c_str ''b'') > str_length (str_lit ''abc'') \<and> strlen (c_str ''b'') \<noteq> 0
   \<and> \<not> no_failure [False]"
proof -
  have facts: "strlen (c_str ''abcd'') > str_length (str_lit ''abc'')"
    "str_replace (str_lit ''abc'') (c_str ''b'') (c_str ''x'') (- 1) [False]
       = Some (Inr (None, []))"
    "\<not> strlen (c_str ''b'') > str_length (str_lit ''abc'')" "strlen (c_str ''b'') \<noteq> 0"
    by code_simp+
  show ?thesis
    using facts
      str_replace_null_only_if [where old_str = "c_str ''abcd''" and self = "str_lit ''abc''"
        and new_str = "c_str ''x''" and cnt = "- 1" and h = "[]" and h' = "[]"]
      str_replace_null_only_if [where old_str = "c_str ''b''" and self = "str_lit ''abc''"
        and new_str = "c_str ''x''" and cnt = "- 1" and h = "[False]" and h' = "[]"]
    by simp
qed

subsection \<open>The search on a pattern that fits the prefix table\<close>

text \<open>
  What C3 says of \<^verbatim>\<open>str_find\<close> holds on every non-empty pattern of at most 128 bytes, the
  items \<^verbatim>\<open>vec_new_len\<close> gives the prefix table: when no allocation fails, the search
  returns, and the vector it returns holds the offsets of the occurrences of the pattern,
  the overlapping ones too, in ascending order.
\<close>

subsubsection \<open>Index arithmetic in \<^verbatim>\<open>size_t\<close>, and the accesses inside a vector\<close>

lemma unat_of_nat_size: "k < 2 ^ 64 \<Longrightarrow> unat (of_nat k :: size_t) = k"
  by (simp add: unat_of_nat)

lemma unat_plus_one_size: "(i :: size_t) < n \<Longrightarrow> unat (i + 1) = unat i + 1"
proof -
  assume "i < n"
  then have "unat i < unat n" by (simp add: word_less_nat_alt)
  moreover have "unat n < 2 ^ LENGTH(64)" by (rule unsigned_less)
  ultimately have "unat i + unat (1 :: size_t) < 2 ^ LENGTH(64)" by simp
  then have "unat (i + 1) = unat i + unat (1 :: size_t)" by (rule unat_add_lem [THEN iffD1])
  then show ?thesis by simp
qed

lemma unat_minus_one_size: "(j :: size_t) \<noteq> 0 \<Longrightarrow> unat (j - 1) = unat j - 1"
proof -
  assume "j \<noteq> 0"
  then have "1 \<le> j" by (simp add: word_le_nat_alt unat_gt_0 Suc_leI)
  then show ?thesis by (simp add: unat_sub)
qed

lemma vec_new_len_no_failure:
  "no_failure h \<Longrightarrow> \<exists>h'. vec_new_len us cnt h
      = (Some \<lparr>unit_size = us, capacity = 128, count = cnt, data = replicate 128 0\<rparr>, h') \<and> no_failure h'"
  by (cases h) (auto simp: vec_new_len_def alloc_def no_failure_def VEC_INIT_CAPACITY_def)

lemma vec_set_inside:
  assumes "i < count v" "unat (count v) \<le> length (data v)" "no_failure h"
  shows "\<exists>h'. vec_set v i [x] h = Inr (v\<lparr>data := (data v)[unat i := x]\<rparr>, h') \<and> no_failure h'"
proof -
  have ni: "\<not> count v \<le> i" using assms(1) by (simp add: not_le)
  have ptr: "vec_ptr_at v i = i" using assms(1) by (auto simp: vec_ptr_at_def)
  have "unat i < unat (count v)" using assms(1) by (simp add: word_less_nat_alt)
  then have il: "unat i < length (data v)" using assms(2) by simp
  have ne: "count v \<noteq> i" using assms(1) by auto
  obtain h' where nl: "vec_new_len (unit_size v) (1 :: size_t) h
      = (Some \<lparr>unit_size = unit_size v, capacity = 128, count = 1, data = replicate 128 (0 :: 'a)\<rparr>, h')"
    and ok: "no_failure h'"
    using vec_new_len_no_failure [OF assms(3), of "unit_size v" 1] by blast
  have m1: "memcpy (replicate 128 (0 :: 'a)) 0 [x] 1 = Some (x # replicate 127 0)"
    by (simp add: memcpy_def)
  have m2: "memcpy (data v) i (x # replicate 127 0) 1 = Some ((data v)[unat i := x])"
    using il by (simp add: memcpy_def upd_conv_take_nth_drop)
  show ?thesis
    using ni ne ok by (simp add: vec_set_def vec_copy_def Let_def nl m1 ptr m2)
qed

lemma vec_get_inside:
  assumes "i < count v" "unat (count v) \<le> length (data v)"
  shows "vec_get v i = Inr (data v ! unat i)"
proof -
  have ptr: "vec_ptr_at v i = i" using assms(1) by (auto simp: vec_ptr_at_def)
  have "unat i < unat (count v)" using assms(1) by (simp add: word_less_nat_alt)
  then show ?thesis using assms(2) by (simp add: vec_get_def Let_def ptr)
qed

lemma of_nat_less_size:
  "a < 2 ^ 64 \<Longrightarrow> b < 2 ^ 64 \<Longrightarrow> (of_nat a :: size_t) < of_nat b \<longleftrightarrow> a < b"
  by (simp add: word_less_nat_alt unat_of_nat_size)

lemma of_nat_eq_size:
  "a < 2 ^ 64 \<Longrightarrow> b < 2 ^ 64 \<Longrightarrow> (of_nat a :: size_t) = of_nat b \<longleftrightarrow> a = b"
  by (metis unat_of_nat_size)

lemma load_c_mem: "i < length p \<Longrightarrow> i < 2 ^ 64 \<Longrightarrow> load (c_mem p) (of_nat i) = Inr (p ! i)"
  by (simp add: load_def c_mem_def unat_of_nat_size nth_append)

subsubsection \<open>Borders\<close>

lemma is_border_0: "1 \<le> q \<Longrightarrow> q \<le> length p \<Longrightarrow> is_border p q 0"
  by (simp add: is_border_def)

lemma is_border_extend:
  assumes "is_border p i len" "i < length p" "p ! i = p ! len"
  shows "is_border p (Suc i) (Suc len)"
  unfolding is_border_def
proof (intro conjI allI impI)
  from assms(1) show "Suc len < Suc i" by (simp add: is_border_def)
  from assms(2) show "Suc i \<le> length p" by simp
  fix t assume "t < Suc len"
  then consider "t < len" | "t = len" by linarith
  then show "p ! t = p ! (Suc i - Suc len + t)"
  proof cases
    case 1
    with assms(1) show ?thesis by (simp add: is_border_def)
  next
    case 2
    with assms(1,3) show ?thesis by (simp add: is_border_def)
  qed
qed

lemma is_border_restrict:
  assumes "is_border p (Suc i) (Suc b)"
  shows "is_border p i b" "p ! b = p ! i"
proof -
  from assms have lt: "b < i" and le: "Suc i \<le> length p"
    and eq: "\<And>t. t < Suc b \<Longrightarrow> p ! t = p ! (i - b + t)"
    by (auto simp: is_border_def)
  show "is_border p i b" using lt le eq by (simp add: is_border_def)
  from eq [of b] lt show "p ! b = p ! i" by simp
qed

lemma is_border_trans:
  assumes "is_border p q b" "is_border p b c"
  shows "is_border p q c"
  unfolding is_border_def
proof (intro conjI allI impI)
  from assms show "c < q" "q \<le> length p" by (auto simp: is_border_def)
  fix t assume t: "t < c"
  from assms have cb: "c < b" and bq: "b < q" by (auto simp: is_border_def)
  from assms(2) t have "p ! t = p ! (b - c + t)" by (simp add: is_border_def)
  also from assms(1) t cb have "\<dots> = p ! (q - b + (b - c + t))" by (simp add: is_border_def)
  also from t cb bq have "q - b + (b - c + t) = q - c + t" by simp
  finally show "p ! t = p ! (q - c + t)" .
qed

lemma is_border_shorter:
  assumes "is_border p q b" "is_border p q c" "c < b"
  shows "is_border p b c"
  unfolding is_border_def
proof (intro conjI allI impI)
  show "c < b" by fact
  from assms(1) show "b \<le> length p" by (simp add: is_border_def)
  fix t assume t: "t < c"
  from assms(1) have bq: "b < q" by (simp add: is_border_def)
  from assms(2) t have "p ! t = p ! (q - c + t)" by (simp add: is_border_def)
  moreover from assms(1) t assms(3) have "p ! (b - c + t) = p ! (q - b + (b - c + t))"
    by (simp add: is_border_def)
  moreover from t assms(3) bq have "q - b + (b - c + t) = q - c + t" by simp
  ultimately show "p ! t = p ! (b - c + t)" by simp
qed

lemma finite_borders: "finite {b. is_border p q b}"
proof (rule finite_subset)
  show "{b. is_border p q b} \<subseteq> {..<q}" by (auto simp: is_border_def)
qed simp

lemma longest_border_is_border:
  assumes "1 \<le> q" "q \<le> length p"
  shows "is_border p q (longest_border p q)"
proof -
  have "{b. is_border p q b} \<noteq> {}" using is_border_0 [OF assms] by blast
  from Max_in [OF finite_borders this] show ?thesis by (simp add: longest_border_def)
qed

lemma longest_border_max: "is_border p q b \<Longrightarrow> b \<le> longest_border p q"
  unfolding longest_border_def by (rule Max_ge [OF finite_borders]) simp

lemma longest_border_eqI:
  assumes "is_border p q b" "\<And>c. is_border p q c \<Longrightarrow> c \<le> b"
  shows "longest_border p q = b"
  unfolding longest_border_def
  by (rule Max_eqI [OF finite_borders]) (use assms in auto)

subsubsection \<open>The prefix table\<close>

lemma lps_table_set:
  assumes "lps_table p lps" "i < length p" "no_failure h"
  shows "\<exists>h'. vec_set lps (of_nat i) [x] h = Inr (lps\<lparr>data := (data lps)[i := x]\<rparr>, h')
           \<and> no_failure h'"
proof -
  from assms have m: "length p \<le> 128" and c: "count lps = of_nat (length p)"
    and l: "length (data lps) = 128" by (auto simp: lps_table_def)
  have "(of_nat i :: size_t) < count lps" using assms(2) m by (simp add: c of_nat_less_size)
  moreover have "unat (count lps) \<le> length (data lps)" using m by (simp add: c l unat_of_nat_size)
  ultimately show ?thesis
    using vec_set_inside [of "of_nat i" lps h x] assms(3) assms(2) m
    by (simp add: unat_of_nat_size)
qed

lemma lps_table_get:
  assumes "lps_table p lps" "i < length p"
  shows "vec_get lps (of_nat i) = Inr (data lps ! i)"
proof -
  from assms have m: "length p \<le> 128" and c: "count lps = of_nat (length p)"
    and l: "length (data lps) = 128" by (auto simp: lps_table_def)
  have "(of_nat i :: size_t) < count lps" using assms(2) m by (simp add: c of_nat_less_size)
  moreover have "unat (count lps) \<le> length (data lps)" using m by (simp add: c l unat_of_nat_size)
  ultimately show ?thesis
    using vec_get_inside [of "of_nat i" lps] assms(2) m by (simp add: unat_of_nat_size)
qed

lemma lps_table_upd: "lps_table p lps \<Longrightarrow> lps_table p (lps\<lparr>data := (data lps)[i := x]\<rparr>)"
  by (simp add: lps_table_def)

lemma lps_filled_upd:
  assumes "lps_filled p lps i" "lps_table p lps" "i < length p" "x = of_nat (longest_border p (Suc i))"
  shows "lps_filled p (lps\<lparr>data := (data lps)[i := x]\<rparr>) (Suc i)"
  using assms by (auto simp: lps_filled_def lps_table_def less_Suc_eq nth_list_update)

lemma kmp_compute_lps_loop_correct:
  assumes "lps_table p lps" "lps_filled p lps i" "1 \<le> i" "i \<le> length p"
    "is_border p i len" "\<And>b. is_border p (Suc i) b \<Longrightarrow> b \<le> Suc len" "no_failure h"
  shows "\<exists>lps' h'. kmp_compute_lps_loop p (of_nat (length p)) lps (of_nat i) (of_nat len) h
            = Some (Inr (lps', h'))
          \<and> lps_table p lps' \<and> lps_filled p lps' (length p) \<and> no_failure h'"
  using assms
proof (induction "2 * (length p - i) + len" arbitrary: lps i len h rule: less_induct)
  case less
  note T = less.prems(1) and F = less.prems(2) and i1 = less.prems(3) and im = less.prems(4)
    and B = less.prems(5) and M = less.prems(6) and ok = less.prems(7)
  from T have m: "length p \<le> 128" by (simp add: lps_table_def)
  from B have li: "len < i" by (simp add: is_border_def)
  show ?case
  proof (cases "i = length p")
    case True
    have "\<not> (of_nat i :: size_t) < of_nat (length p)" using True by simp
    then have "kmp_compute_lps_loop p (of_nat (length p)) lps (of_nat i) (of_nat len) h
        = Some (Inr (lps, h))"
      by (subst kmp_compute_lps_loop.simps) simp
    with T F ok True show ?thesis by simp
  next
    case False
    with im have ilt: "i < length p" by simp
    have c: "(of_nat i :: size_t) < of_nat (length p)"
      using ilt m by (simp add: of_nat_less_size)
    have ldi: "load (c_mem p) (of_nat i) = Inr (p ! i)"
      using ilt m by (simp add: load_c_mem)
    have ldl: "load (c_mem p) (of_nat len) = Inr (p ! len)"
      using ilt li m by (simp add: load_c_mem)
    show ?thesis
    proof (cases "p ! i = p ! len")
      case True
      let ?lps1 = "lps\<lparr>data := (data lps)[i := of_nat (Suc len)]\<rparr>"
      from lps_table_set [OF T ilt ok, of "of_nat (Suc len)"] obtain h1 where
        vs: "vec_set lps (of_nat i) [of_nat (Suc len)] h = Inr (?lps1, h1)" and ok1: "no_failure h1"
        by blast
      have B1: "is_border p (Suc i) (Suc len)" by (rule is_border_extend [OF B ilt True])
      have lb: "longest_border p (Suc i) = Suc len"
        by (rule longest_border_eqI [OF B1 M])
      have M1: "b \<le> Suc (Suc len)" if "is_border p (Suc (Suc i)) b" for b
      proof (cases b)
        case 0 then show ?thesis by simp
      next
        case (Suc b')
        with that have "is_border p (Suc i) b'" by (simp add: is_border_restrict)
        then have "b' \<le> Suc len" using lb longest_border_max by metis
        with Suc show ?thesis by simp
      qed
      have "2 * (length p - Suc i) + Suc len < 2 * (length p - i) + len" using ilt by simp
      from less.hyps [OF this lps_table_upd [OF T] lps_filled_upd [OF F T ilt] _ _ B1 M1 ok1]
      obtain lps' h' where
        r: "kmp_compute_lps_loop p (of_nat (length p)) ?lps1 (of_nat (Suc i)) (of_nat (Suc len)) h1
              = Some (Inr (lps', h'))"
        and post: "lps_table p lps'" "lps_filled p lps' (length p)" "no_failure h'"
        using ilt lb by auto
      have "kmp_compute_lps_loop p (of_nat (length p)) lps (of_nat i) (of_nat len) h
          = Some (Inr (lps', h'))"
        using c ldi ldl True vs r
        by (subst kmp_compute_lps_loop.simps) (simp add: add.commute)
      with post show ?thesis by blast
    next
      case False
      show ?thesis
      proof (cases "len = 0")
        case True
        let ?lps1 = "lps\<lparr>data := (data lps)[i := 0]\<rparr>"
        from lps_table_set [OF T ilt ok, of 0] obtain h1 where
          vs: "vec_set lps (of_nat i) [0] h = Inr (?lps1, h1)" and ok1: "no_failure h1"
          by blast
        have B0: "is_border p (Suc i) 0" using ilt by (simp add: is_border_0)
        have lb: "longest_border p (Suc i) = 0"
        proof (rule longest_border_eqI [OF B0])
          fix c assume cb: "is_border p (Suc i) c"
          show "c \<le> 0"
          proof (cases c)
            case 0 then show ?thesis by simp
          next
            case (Suc c')
            with M [OF cb] True have "c' = 0" by simp
            with cb Suc have "p ! 0 = p ! i" using is_border_restrict(2) by metis
            with False True show ?thesis by simp
          qed
        qed
        have M1: "b \<le> Suc 0" if "is_border p (Suc (Suc i)) b" for b
        proof (cases b)
          case 0 then show ?thesis by simp
        next
          case (Suc b')
          with that have "is_border p (Suc i) b'" by (simp add: is_border_restrict)
          then have "b' \<le> 0" using lb longest_border_max by metis
          with Suc show ?thesis by simp
        qed
        have F1: "lps_filled p ?lps1 (Suc i)"
          by (rule lps_filled_upd [OF F T ilt]) (simp add: lb)
        have "2 * (length p - Suc i) + 0 < 2 * (length p - i) + len" using ilt by simp
        from less.hyps [OF this lps_table_upd [OF T] F1 _ _ B0 M1 ok1]
        obtain lps' h' where
          r: "kmp_compute_lps_loop p (of_nat (length p)) ?lps1 (of_nat (Suc i)) (of_nat 0) h1
                = Some (Inr (lps', h'))"
          and post: "lps_table p lps'" "lps_filled p lps' (length p)" "no_failure h'"
          using ilt by auto
        have "kmp_compute_lps_loop p (of_nat (length p)) lps (of_nat i) (of_nat len) h
            = Some (Inr (lps', h'))"
          using c ldi ldl False True vs r
          by (subst kmp_compute_lps_loop.simps) (simp add: add.commute)
        with post show ?thesis by blast
      next
        case lenz: False
        let ?len' = "longest_border p len"
        have l1: "1 \<le> len" "len \<le> length p" using lenz li im by auto
        have Bl: "is_border p len ?len'" by (rule longest_border_is_border [OF l1])
        then have ll: "?len' < len" by (simp add: is_border_def)
        have nz: "(of_nat len :: size_t) \<noteq> 0"
          using lenz li ilt m of_nat_eq_size [of len 0] by simp
        have "(of_nat len :: size_t) - 1 = of_nat (len - 1)" using l1 by simp
        moreover have "vec_get lps (of_nat (len - 1)) = Inr (data lps ! (len - 1))"
          using l1 li ilt by (intro lps_table_get [OF T]) simp
        moreover have "data lps ! (len - 1) = of_nat ?len'"
          using F l1 li by (simp add: lps_filled_def)
        ultimately have vg: "vec_get lps (of_nat len - 1) = Inr (of_nat ?len')" by simp
        have B': "is_border p i ?len'" by (rule is_border_trans [OF B Bl])
        have M': "b \<le> Suc ?len'" if "is_border p (Suc i) b" for b
        proof (cases b)
          case 0 then show ?thesis by simp
        next
          case (Suc b')
          with that have bi: "is_border p i b'" and eq: "p ! b' = p ! i"
            by (simp_all add: is_border_restrict)
          from M [OF that] Suc have "b' \<le> len" by simp
          moreover from eq False have "b' \<noteq> len" by auto
          ultimately have "b' < len" by simp
          from is_border_shorter [OF B bi this] have "b' \<le> ?len'" by (rule longest_border_max)
          with Suc show ?thesis by simp
        qed
        have "2 * (length p - i) + ?len' < 2 * (length p - i) + len" using ll by simp
        from less.hyps [OF this T F i1 im B' M' ok]
        obtain lps' h' where
          r: "kmp_compute_lps_loop p (of_nat (length p)) lps (of_nat i) (of_nat ?len') h
                = Some (Inr (lps', h'))"
          and post: "lps_table p lps'" "lps_filled p lps' (length p)" "no_failure h'"
          by auto
        have "kmp_compute_lps_loop p (of_nat (length p)) lps (of_nat i) (of_nat len) h
            = Some (Inr (lps', h'))"
          using c ldi ldl False nz vg r
          by (subst kmp_compute_lps_loop.simps) simp
        with post show ?thesis by blast
      qed
    qed
  qed
qed

subsubsection \<open>Occurrences and the state of the scan\<close>

lemma partial_matchD:
  assumes "partial_match s p i q"
  shows "q \<le> i" "i \<le> length s" "q \<le> length p" "\<And>t. t < q \<Longrightarrow> s ! (i - q + t) = p ! t"
  using assms by (auto simp: partial_match_def)

lemma partial_match_border:
  assumes "partial_match s p i q" "is_border p q b"
  shows "partial_match s p i b"
  unfolding partial_match_def
proof (intro conjI allI impI)
  note pm = partial_matchD [OF assms(1)]
  from assms(2) have bq: "b < q" by (simp add: is_border_def)
  with pm show "b \<le> i" "i \<le> length s" "b \<le> length p" by auto
  fix t assume t: "t < b"
  from assms(2) t have "p ! t = p ! (q - b + t)" by (simp add: is_border_def)
  moreover from t bq have "s ! (i - q + (q - b + t)) = p ! (q - b + t)"
    by (intro pm(4)) simp
  moreover from t bq pm(1) have "i - q + (q - b + t) = i - b + t" by simp
  ultimately show "s ! (i - b + t) = p ! t" by simp
qed

lemma partial_match_extend:
  assumes "partial_match s p i q" "i < length s" "q < length p" "s ! i = p ! q"
  shows "partial_match s p (Suc i) (Suc q)"
  unfolding partial_match_def
proof (intro conjI allI impI)
  note pm = partial_matchD [OF assms(1)]
  from assms pm show "Suc q \<le> Suc i" "Suc i \<le> length s" "Suc q \<le> length p" by auto
  fix t assume "t < Suc q"
  then consider "t < q" | "t = q" by linarith
  then show "s ! (Suc i - Suc q + t) = p ! t"
  proof cases
    case 1
    from pm(4) [OF 1] show ?thesis by simp
  next
    case 2
    with pm(1) assms(4) show ?thesis by simp
  qed
qed

lemma partial_match_full: "partial_match s p i (length p) \<Longrightarrow> occurs s p (i - length p)"
  by (auto simp: partial_match_def occurs_def)

text \<open>No occurrence starts strictly between the alignment of a partial match and the
  alignment of its longest border.\<close>

lemma no_occurrence_between:
  assumes pm: "partial_match s p i q" and k: "i - q < k" "k < i - longest_border p q"
  shows "\<not> occurs s p k"
proof
  assume occ: "occurs s p k"
  define t where "t = i - k"
  from pm have qi: "q \<le> i" and qp: "q \<le> length p"
    and eq: "\<And>u. u < q \<Longrightarrow> s ! (i - q + u) = p ! u"
    by (auto simp: partial_match_def)
  from k qi have tq: "t < q" and tl: "longest_border p q < t" and ki: "k = i - t" "t \<le> i"
    by (auto simp: t_def)
  have "is_border p q t"
    unfolding is_border_def
  proof (intro conjI allI impI)
    show "t < q" by fact
    show "q \<le> length p" by fact
    fix u assume u: "u < t"
    with tq qp have "u < length p" by simp
    with occ have "s ! (k + u) = p ! u" by (simp add: occurs_def)
    moreover from u tq have "s ! (i - q + (q - t + u)) = p ! (q - t + u)" by (intro eq) simp
    moreover from u tq qi ki have "i - q + (q - t + u) = k + u" by simp
    ultimately show "p ! u = p ! (q - t + u)" by simp
  qed
  from longest_border_max [OF this] tl show False by simp
qed

lemma filter_upt_extend:
  assumes "a \<le> c" "\<And>k. a \<le> k \<Longrightarrow> k < c \<Longrightarrow> \<not> P k"
  shows "filter P [0..<c] = filter P [0..<a]"
proof -
  from assms(1) have "[0..<c] = [0..<a] @ [a..<c]" by (metis le_add_diff_inverse upt_add_eq_append zero_le)
  moreover from assms(2) have "filter P [a..<c] = []" by (auto simp: filter_empty_conv)
  ultimately show ?thesis by simp
qed

lemma filter_upt_extend_one:
  assumes "a < c" "P a" "\<And>k. a < k \<Longrightarrow> k < c \<Longrightarrow> \<not> P k"
  shows "filter P [0..<c] = filter P [0..<a] @ [a]"
proof -
  have "filter P [0..<c] = filter P [0..<Suc a]"
    using assms(1,3) by (intro filter_upt_extend) auto
  with assms(2) show ?thesis by simp
qed

text \<open>The two ways the search falls back on the table.\<close>

lemma mismatch_step:
  assumes pm: "partial_match s p i q" and q: "1 \<le> q" "q < length p"
    and i: "i < length s" and ne: "s ! i \<noteq> p ! q"
  shows "partial_match s p i (longest_border p q)"
    "filter (occurs s p) [0..<i - longest_border p q] = filter (occurs s p) [0..<i - q]"
proof -
  from q have B: "is_border p q (longest_border p q)"
    by (intro longest_border_is_border) auto
  show "partial_match s p i (longest_border p q)" by (rule partial_match_border [OF pm B])
  from B have lt: "longest_border p q < q" by (simp add: is_border_def)
  from pm have qi: "q \<le> i" by (simp add: partial_match_def)
  show "filter (occurs s p) [0..<i - longest_border p q] = filter (occurs s p) [0..<i - q]"
  proof (rule filter_upt_extend)
    show "i - q \<le> i - longest_border p q" using lt by simp
    fix k assume k: "i - q \<le> k" "k < i - longest_border p q"
    show "\<not> occurs s p k"
    proof (cases "k = i - q")
      case True
      show ?thesis
      proof
        assume "occurs s p k"
        with q(2) have "s ! (k + q) = p ! q" by (simp add: occurs_def)
        with True qi ne show False by simp
      qed
    next
      case False
      with k have "i - q < k" by simp
      from no_occurrence_between [OF pm this k(2)] show ?thesis .
    qed
  qed
qed

lemma full_match_step:
  assumes pm: "partial_match s p i (length p)" and m: "1 \<le> length p"
  shows "partial_match s p i (longest_border p (length p))"
    "filter (occurs s p) [0..<i - longest_border p (length p)]
       = filter (occurs s p) [0..<i - length p] @ [i - length p]"
proof -
  from m have B: "is_border p (length p) (longest_border p (length p))"
    by (intro longest_border_is_border) auto
  show "partial_match s p i (longest_border p (length p))"
    by (rule partial_match_border [OF pm B])
  from B have lt: "longest_border p (length p) < length p" by (simp add: is_border_def)
  from pm have qi: "length p \<le> i" by (simp add: partial_match_def)
  show "filter (occurs s p) [0..<i - longest_border p (length p)]
       = filter (occurs s p) [0..<i - length p] @ [i - length p]"
  proof (rule filter_upt_extend_one)
    show "i - length p < i - longest_border p (length p)" using lt qi by simp
    show "occurs s p (i - length p)" by (rule partial_match_full [OF pm])
    fix k assume "i - length p < k" "k < i - longest_border p (length p)"
    then show "\<not> occurs s p k" by (rule no_occurrence_between [OF pm])
  qed
qed

lemma no_match_at_zero_step:
  assumes "i < length s" "1 \<le> length p" "s ! i \<noteq> p ! 0"
  shows "filter (occurs s p) [0..<Suc i] = filter (occurs s p) [0..<i]"
proof -
  have "\<not> occurs s p i"
  proof
    assume "occurs s p i"
    with assms(2) have "s ! (i + 0) = p ! 0" unfolding occurs_def by (metis Suc_le_eq One_nat_def)
    with assms(3) show False by simp
  qed
  then show ?thesis by simp
qed

lemma occurrences_complete:
  assumes "j < length p"
  shows "filter (occurs s p) [0..<length s - j] = filter (occurs s p) [0..<length s]"
proof (rule filter_upt_extend [symmetric])
  show "length s - j \<le> length s" by simp
  fix k assume "length s - j \<le> k" "k < length s"
  with assms show "\<not> occurs s p k" by (auto simp: occurs_def)
qed

subsubsection \<open>The vector of the offsets\<close>

lemma unat_double_size: "unat (c :: size_t) < 2 ^ 63 \<Longrightarrow> unat (c * 2) = 2 * unat c"
proof -
  assume "unat c < 2 ^ 63"
  then have "unat c * unat (2 :: size_t) < 2 ^ LENGTH(64)" by simp
  then have "unat (c * 2) = unat c * unat (2 :: size_t)" by (rule unat_mult_lem [THEN iffD1])
  then show ?thesis by simp
qed

lemma vec_extend_one:
  assumes wf: "pos_wf v" and b: "unat (count v) < 2 ^ 61" and ok: "no_failure h"
  shows "\<exists>v' h'. vec_extend v 1 h = Inr (Some v', h') \<and> pos_wf v' \<and> count v' = count v + 1
           \<and> unat (count v') = Suc (unat (count v))
           \<and> take (unat (count v)) (data v') = take (unat (count v)) (data v)
           \<and> no_failure h'"
proof -
  let ?c = "unat (count v)" and ?k = "unat (capacity v)"
  from wf have lt: "count v < capacity v" and len: "length (data v) = ?k"
    and kb: "?k \<le> 128 + 2 * ?c" by (auto simp: pos_wf_def)
  from lt have ck: "?c < ?k" by (simp add: word_less_nat_alt)
  have c1: "unat (count v + 1) = Suc ?c" using unat_plus_one_size [OF lt] by simp
  from kb b have k63: "?k < 2 ^ 63" by simp
  show ?thesis
  proof (cases "capacity v \<le> count v + 1")
    case False
    then have lt1: "count v + 1 < capacity v" by (simp add: not_le)
    have "vec_extend v 1 h = Inr (Some (v\<lparr>count := count v + 1\<rparr>), h)"
      using False by (simp add: vec_extend_def vec_count_def vec_resize_def)
    moreover have "pos_wf (v\<lparr>count := count v + 1\<rparr>)"
      using lt1 len kb c1 by (simp add: pos_wf_def)
    ultimately show ?thesis using ok c1 by simp
  next
    case True
    then have "?k \<le> Suc ?c" by (simp add: word_le_nat_alt c1)
    with ck have kc: "?k = Suc ?c" by simp
    have k2: "unat (capacity v * 2) = 2 * ?k" by (rule unat_double_size [OF k63])
    have le2: "count v \<le> capacity v * 2" using ck by (simp add: word_le_nat_alt k2)
    have sub: "unat (capacity v * 2 - count v) = 2 * ?k - ?c"
      by (simp add: unat_sub [OF le2] k2)
    obtain h' where al: "alloc h = (True, h')" and ok': "no_failure h'"
      using ok by (cases h) (auto simp: alloc_def no_failure_def)
    have rd: "realloc_data (data v) (2 * ?k) = data v @ replicate ?k 0"
      using len by (simp add: realloc_data_def)
    let ?d = "take ?c (data v) @ replicate (2 * ?k - ?c) 0"
    have ms: "memset0 (realloc_data (data v) (unat (capacity v * 2))) (count v)
          (capacity v * 2 - count v) = Some ?d"
      using ck len by (simp add: memset0_def k2 sub rd)
    let ?v' = "v\<lparr>capacity := capacity v * 2, count := count v + 1, data := ?d\<rparr>"
    have ext: "vec_extend v 1 h = Inr (Some ?v', h')"
      using True by (simp add: vec_extend_def vec_count_def vec_resize_def Let_def al ms)
    have "count v + 1 < capacity v * 2"
      using ck by (simp add: word_less_nat_alt c1 k2)
    then have "pos_wf ?v'"
      using ck len kc by (simp add: pos_wf_def k2 c1)
    moreover have "take ?c (data ?v') = take ?c (data v)" using ck len by simp
    ultimately show ?thesis using ext ok' c1 by simp
  qed
qed

lemma pos_push:
  assumes wf: "pos_wf v" and b: "unat (count v) < 2 ^ 61" and ok: "no_failure h"
  shows "\<exists>v1 h1 v2 h2. vec_extend v 1 h = Inr (Some v1, h1)
           \<and> vec_set v1 (vec_count v1 - 1) [x] h1 = Inr (v2, h2)
           \<and> pos_wf v2 \<and> str_bytes v2 = str_bytes v @ [x] \<and> no_failure h2"
proof -
  from vec_extend_one [OF assms] obtain v1 h1 where
    ext: "vec_extend v 1 h = Inr (Some v1, h1)" and wf1: "pos_wf v1"
    and c1: "count v1 = count v + 1" and u1: "unat (count v1) = Suc (unat (count v))"
    and tk: "take (unat (count v)) (data v1) = take (unat (count v)) (data v)"
    and ok1: "no_failure h1" by blast
  have idx: "vec_count v1 - 1 = count v" by (simp add: vec_count_def c1)
  have lt: "count v < count v1" by (simp add: word_less_nat_alt u1)
  from wf1 have le: "unat (count v1) \<le> length (data v1)"
    by (simp add: pos_wf_def word_less_nat_alt)
  from vec_set_inside [OF lt le ok1, of x] obtain h2 where
    vs: "vec_set v1 (count v) [x] h1 = Inr (v1\<lparr>data := (data v1)[unat (count v) := x]\<rparr>, h2)"
    and ok2: "no_failure h2" by blast
  let ?v2 = "v1\<lparr>data := (data v1)[unat (count v) := x]\<rparr>"
  have "pos_wf ?v2" using wf1 by (simp add: pos_wf_def)
  moreover have "str_bytes ?v2 = str_bytes v @ [x]"
    using le tk by (simp add: str_bytes_def u1 take_Suc_conv_app_nth)
  ultimately show ?thesis using ext vs ok2 idx by simp
qed

subsubsection \<open>The search loop\<close>

text \<open>One round of the search loop, by the branch it takes.\<close>

lemma str_find_loop_exit:
  assumes "\<not> i < n"
  shows "str_find_loop self pat n m lps pos i j h = Some (Inr (Some pos, h))"
  by (subst str_find_loop.simps) (simp add: assms)

lemma str_find_loop_full_match:
  assumes "i < n" "load (data self) i = Inr a" "load (c_mem pat) j = Inr a" "m = j + 1"
    "vec_extend pos 1 h = Inr (Some pos1, h1)"
    "vec_set pos1 (vec_count pos1 - 1) [i - j] h1 = Inr (pos2, h2)"
    "vec_get lps j = Inr j2"
  shows "str_find_loop self pat n m lps pos i j h
       = str_find_loop self pat n m lps pos2 (i + 1) j2 h2"
  by (subst str_find_loop.simps) (simp add: assms Let_def)

lemma str_find_loop_match_then_differ:
  assumes "i < n" "load (data self) i = Inr a" "load (c_mem pat) j = Inr a" "j + 1 \<noteq> m"
    "i + 1 < n" "load (data self) (i + 1) = Inr a1" "load (c_mem pat) (j + 1) = Inr b1"
    "a1 \<noteq> b1" "j + 1 \<noteq> 0" "vec_get lps j = Inr j2"
  shows "str_find_loop self pat n m lps pos i j h
       = str_find_loop self pat n m lps pos (i + 1) j2 h"
  by (subst str_find_loop.simps) (simp add: assms Let_def)

lemma str_find_loop_match_at_end:
  assumes "i < n" "load (data self) i = Inr a" "load (c_mem pat) j = Inr a" "j + 1 \<noteq> m"
    "\<not> i + 1 < n"
  shows "str_find_loop self pat n m lps pos i j h
       = str_find_loop self pat n m lps pos (i + 1) (j + 1) h"
  by (subst str_find_loop.simps) (simp add: assms Let_def)

lemma str_find_loop_match_then_same:
  assumes "i < n" "load (data self) i = Inr a" "load (c_mem pat) j = Inr a" "j + 1 \<noteq> m"
    "i + 1 < n" "load (data self) (i + 1) = Inr a1" "load (c_mem pat) (j + 1) = Inr a1"
  shows "str_find_loop self pat n m lps pos i j h
       = str_find_loop self pat n m lps pos (i + 1) (j + 1) h"
  by (subst str_find_loop.simps) (simp add: assms Let_def)

lemma str_find_loop_mismatch:
  assumes "i < n" "load (data self) i = Inr a" "load (c_mem pat) j = Inr b" "a \<noteq> b"
    "j \<noteq> m" "j \<noteq> 0" "vec_get lps (j - 1) = Inr j2"
  shows "str_find_loop self pat n m lps pos i j h
       = str_find_loop self pat n m lps pos i j2 h"
  by (subst str_find_loop.simps) (simp add: assms Let_def)

lemma str_find_loop_mismatch_at_zero:
  assumes "i < n" "load (data self) i = Inr a" "load (c_mem pat) 0 = Inr b" "a \<noteq> b"
    "0 \<noteq> m"
  shows "str_find_loop self pat n m lps pos i 0 h
       = str_find_loop self pat n m lps pos (i + 1) 0 h"
  by (subst str_find_loop.simps) (simp add: assms Let_def)

lemma of_nat_plus_one_size: "(of_nat k :: size_t) + 1 = of_nat (Suc k)"
  by simp

lemma longest_border_less: "1 \<le> q \<Longrightarrow> q \<le> length p \<Longrightarrow> longest_border p q < q"
  using longest_border_is_border [of q p] by (simp add: is_border_def)

lemma lps_table_entry:
  assumes "lps_table p lps" "lps_filled p lps (length p)" "q < length p"
  shows "vec_get lps (of_nat q) = Inr (of_nat (longest_border p (Suc q)))"
  using lps_table_get [OF assms(1,3)] assms(2,3) by (simp add: lps_filled_def)

lemma load_str_bytes:
  assumes "k < length (str_bytes self)" "unat (count self) \<le> length (data self)" "k < 2 ^ 64"
  shows "load (data self) (of_nat k) = Inr (str_bytes self ! k)"
  using assms by (simp add: load_def unat_of_nat_size str_bytes_def)

lemma partial_match_zero: "i \<le> length s \<Longrightarrow> partial_match s p i 0"
  by (simp add: partial_match_def)

lemma str_find_loop_correct:
  assumes "unat (count self) \<le> length (data self)" "unat (count self) < 2 ^ 61"
    "lps_table p lps" "lps_filled p lps (length p)" "1 \<le> length p"
    "j < length p" "partial_match (str_bytes self) p i j" "pos_wf pos"
    "str_bytes pos = map of_nat (filter (occurs (str_bytes self) p) [0..<i - j])"
    "no_failure h"
  shows "\<exists>pos' h'. str_find_loop self p (count self) (of_nat (length p)) lps pos
              (of_nat i) (of_nat j) h = Some (Inr (Some pos', h'))
          \<and> str_bytes pos'
              = map of_nat (filter (occurs (str_bytes self) p) [0..<length (str_bytes self)])
          \<and> no_failure h'"
  using assms(6-10)
proof (induction "2 * (length (str_bytes self) - i) + j" arbitrary: i j pos h rule: less_induct)
  case less
  let ?s = "str_bytes self" and ?m = "length p"
  let ?n = "length ?s"
  let ?occ = "\<lambda>k. map (of_nat :: nat \<Rightarrow> size_t) (filter (occurs ?s p) [0..<k])"
  note len = assms(1) and nb = assms(2) and tbl = assms(3) and fil = assms(4) and m1 = assms(5)
  note jm = less.prems(1) and pm = less.prems(2) and wf = less.prems(3)
    and found = less.prems(4) and ok = less.prems(5)
  have n: "?n = unat (count self)" using len by (simp add: str_bytes_def)
  have n61: "?n < 2 ^ 61" using nb n by simp
  have n64: "?n < 2 ^ 64" using n61 by simp
  have cn: "count self = of_nat ?n" by (simp add: n)
  from tbl have mb: "?m \<le> 128" by (simp add: lps_table_def)
  from pm have ji: "j \<le> i" and ile: "i \<le> ?n" by (simp_all add: partial_match_def)
  have i64: "i < 2 ^ 64" using ile n64 by simp
  have j64: "j < 2 ^ 64" using ji i64 by simp
  have lpos: "length (str_bytes pos) = unat (count pos)"
    using wf by (simp add: pos_wf_def str_bytes_def word_less_nat_alt)
  have "length (str_bytes pos) \<le> i - j"
    unfolding found length_map by (rule order_trans [OF length_filter_le]) simp
  then have pb: "unat (count pos) < 2 ^ 61" using lpos ile n61 by simp
  show ?case
  proof (cases "i = ?n")
    case True
    have "\<not> (of_nat i :: size_t) < count self" by (simp add: cn True)
    then have "str_find_loop self p (count self) (of_nat ?m) lps pos (of_nat i) (of_nat j) h
        = Some (Inr (Some pos, h))" by (rule str_find_loop_exit)
    moreover have "?occ (i - j) = ?occ ?n"
      unfolding True using occurrences_complete [OF jm, of ?s] by simp
    ultimately show ?thesis using found ok by simp
  next
    case False
    with ile have ilt: "i < ?n" by simp
    have ci: "(of_nat i :: size_t) < count self"
      unfolding cn using ilt i64 n64 by (simp add: of_nat_less_size)
    have ldi: "load (data self) (of_nat i) = Inr (?s ! i)"
      using ilt len i64 by (rule load_str_bytes)
    have ldj: "load (c_mem p) (of_nat j) = Inr (p ! j)"
      using jm j64 by (rule load_c_mem)
    have mne: "(of_nat j :: size_t) \<noteq> of_nat ?m"
      using jm mb j64 by (simp add: of_nat_eq_size)
    show ?thesis
    proof (cases "?s ! i = p ! j")
      case True
      have pm1: "partial_match ?s p (Suc i) (Suc j)" by (rule partial_match_extend [OF pm ilt jm True])
      have ldj': "load (c_mem p) (of_nat j) = Inr (?s ! i)" using ldj True by simp
      have tb: "vec_get lps (of_nat j) = Inr (of_nat (longest_border p (Suc j)))"
        by (rule lps_table_entry [OF tbl fil jm])
      have lb: "longest_border p (Suc j) < Suc j" using jm by (intro longest_border_less) simp_all
      show ?thesis
      proof (cases "Suc j = ?m")
        case True
        let ?b = "longest_border p ?m"
        have lbm: "?b < ?m" using lb True by simp
        have e: "(of_nat ?m :: size_t) = of_nat j + 1" using True [symmetric] by simp
        from pos_push [OF wf pb ok, of "of_nat i - of_nat j"] obtain pos1 h1 pos2 h2 where
          ext: "vec_extend pos 1 h = Inr (Some pos1, h1)"
          and vs: "vec_set pos1 (vec_count pos1 - 1) [of_nat i - of_nat j] h1 = Inr (pos2, h2)"
          and wf2: "pos_wf pos2" and b2: "str_bytes pos2 = str_bytes pos @ [of_nat i - of_nat j]"
          and ok2: "no_failure h2" by blast
        have pmm: "partial_match ?s p (Suc i) ?m" using pm1 True by simp
        note fm = full_match_step [OF pmm m1]
        have d: "(of_nat i :: size_t) - of_nat j = of_nat (Suc i - ?m)"
          using ji True [symmetric] by simp
        have ij: "Suc i - ?m = i - j" using True [symmetric] by simp
        have f2: "str_bytes pos2 = ?occ (Suc i - ?b)"
          unfolding b2 found fm(2) d ij by simp
        have ms: "2 * (?n - Suc i) + ?b < 2 * (?n - i) + j" using ilt lbm True by simp
        from less.hyps [OF ms lbm fm(1) wf2 f2 ok2] obtain pos' h' where
          r: "str_find_loop self p (count self) (of_nat ?m) lps pos2 (of_nat (Suc i)) (of_nat ?b) h2
                = Some (Inr (Some pos', h'))"
          and b': "str_bytes pos' = ?occ ?n" and ok': "no_failure h'" by blast
        have tb': "vec_get lps (of_nat j) = Inr (of_nat ?b)" using tb True by simp
        have "str_find_loop self p (count self) (of_nat ?m) lps pos (of_nat i) (of_nat j) h
            = str_find_loop self p (count self) (of_nat ?m) lps pos2 (of_nat i + 1) (of_nat ?b) h2"
          by (rule str_find_loop_full_match [OF ci ldi ldj' e ext vs tb'])
        also have "\<dots> = Some (Inr (Some pos', h'))" unfolding of_nat_plus_one_size by (rule r)
        finally show ?thesis using b' ok' by simp
      next
        case False
        with jm have sj: "Suc j < ?m" by simp
        have sj64: "Suc j < 2 ^ 64" using sj mb by simp
        have ne: "(of_nat j :: size_t) + 1 \<noteq> of_nat ?m"
          unfolding of_nat_plus_one_size
          using sj mb sj64 of_nat_eq_size [of "Suc j" "length p"] by simp
        have ldj1: "load (c_mem p) (of_nat j + 1) = Inr (p ! Suc j)"
          unfolding of_nat_plus_one_size using sj sj64 by (rule load_c_mem)
        have ij: "Suc i - Suc j = i - j" by simp
        show ?thesis
        proof (cases "Suc i = ?n")
          case True
          have nlt: "\<not> (of_nat i :: size_t) + 1 < count self"
            unfolding of_nat_plus_one_size cn True by simp
          have f1: "str_bytes pos = ?occ (Suc i - Suc j)" unfolding ij by (rule found)
          have ms: "2 * (?n - Suc i) + Suc j < 2 * (?n - i) + j" using ilt by simp
          from less.hyps [OF ms sj pm1 wf f1 ok] obtain pos' h' where
            r: "str_find_loop self p (count self) (of_nat ?m) lps pos (of_nat (Suc i)) (of_nat (Suc j)) h
                  = Some (Inr (Some pos', h'))"
            and b': "str_bytes pos' = ?occ ?n" and ok': "no_failure h'" by blast
          have "str_find_loop self p (count self) (of_nat ?m) lps pos (of_nat i) (of_nat j) h
              = str_find_loop self p (count self) (of_nat ?m) lps pos (of_nat i + 1) (of_nat j + 1) h"
            by (rule str_find_loop_match_at_end [OF ci ldi ldj' ne nlt])
          also have "\<dots> = Some (Inr (Some pos', h'))" unfolding of_nat_plus_one_size by (rule r)
          finally show ?thesis using b' ok' by simp
        next
          case False
          with ilt have silt: "Suc i < ?n" by simp
          have si64: "Suc i < 2 ^ 64" using silt n64 by simp
          have ci1: "(of_nat i :: size_t) + 1 < count self"
            unfolding of_nat_plus_one_size cn using silt si64 n64 by (simp only: of_nat_less_size)
          have ldi1: "load (data self) (of_nat i + 1) = Inr (?s ! Suc i)"
            unfolding of_nat_plus_one_size using silt len si64 by (rule load_str_bytes)
          show ?thesis
          proof (cases "?s ! Suc i = p ! Suc j")
            case True
            have ldj1': "load (c_mem p) (of_nat j + 1) = Inr (?s ! Suc i)" using ldj1 True by simp
            have f1: "str_bytes pos = ?occ (Suc i - Suc j)" unfolding ij by (rule found)
            have ms: "2 * (?n - Suc i) + Suc j < 2 * (?n - i) + j" using ilt by simp
            from less.hyps [OF ms sj pm1 wf f1 ok] obtain pos' h' where
              r: "str_find_loop self p (count self) (of_nat ?m) lps pos (of_nat (Suc i)) (of_nat (Suc j)) h
                    = Some (Inr (Some pos', h'))"
              and b': "str_bytes pos' = ?occ ?n" and ok': "no_failure h'" by blast
            have "str_find_loop self p (count self) (of_nat ?m) lps pos (of_nat i) (of_nat j) h
                = str_find_loop self p (count self) (of_nat ?m) lps pos (of_nat i + 1) (of_nat j + 1) h"
              by (rule str_find_loop_match_then_same [OF ci ldi ldj' ne ci1 ldi1 ldj1'])
            also have "\<dots> = Some (Inr (Some pos', h'))" unfolding of_nat_plus_one_size by (rule r)
            finally show ?thesis using b' ok' by simp
          next
            case False
            let ?b = "longest_border p (Suc j)"
            have q1: "1 \<le> Suc j" by simp
            note mm = mismatch_step [OF pm1 q1 sj silt False]
            have f1: "str_bytes pos = ?occ (Suc i - ?b)" unfolding mm(2) ij by (rule found)
            have bm: "?b < ?m" using lb sj by simp
            have ms: "2 * (?n - Suc i) + ?b < 2 * (?n - i) + j" using ilt lb by simp
            from less.hyps [OF ms bm mm(1) wf f1 ok] obtain pos' h' where
              r: "str_find_loop self p (count self) (of_nat ?m) lps pos (of_nat (Suc i)) (of_nat ?b) h
                    = Some (Inr (Some pos', h'))"
              and b': "str_bytes pos' = ?occ ?n" and ok': "no_failure h'" by blast
            have nz: "(of_nat j :: size_t) + 1 \<noteq> 0"
              unfolding of_nat_plus_one_size using sj64 of_nat_eq_size [of "Suc j" 0] by simp
            have "str_find_loop self p (count self) (of_nat ?m) lps pos (of_nat i) (of_nat j) h
                = str_find_loop self p (count self) (of_nat ?m) lps pos (of_nat i + 1) (of_nat ?b) h"
              by (rule str_find_loop_match_then_differ
                    [OF ci ldi ldj' ne ci1 ldi1 ldj1 False nz tb])
            also have "\<dots> = Some (Inr (Some pos', h'))" unfolding of_nat_plus_one_size by (rule r)
            finally show ?thesis using b' ok' by simp
          qed
        qed
      qed
    next
      case False
      show ?thesis
      proof (cases "j = 0")
        case True
        have ld0: "load (c_mem p) 0 = Inr (p ! j)" using ldj True by simp
        have m0: "(0 :: size_t) \<noteq> of_nat ?m" using mne True by simp
        have ne0: "?s ! i \<noteq> p ! 0" using False True by simp
        have pm0: "partial_match ?s p (Suc i) 0" using ilt by (intro partial_match_zero) simp
        have "?occ (Suc i - 0) = ?occ i"
          using no_match_at_zero_step [OF ilt m1 ne0] by simp
        then have f1: "str_bytes pos = ?occ (Suc i - 0)" using found True by simp
        have ms: "2 * (?n - Suc i) + 0 < 2 * (?n - i) + j" using ilt by simp
        have z: "0 < ?m" using m1 by (cases p) simp_all
        from less.hyps [OF ms z pm0 wf f1 ok] obtain pos' h' where
          r: "str_find_loop self p (count self) (of_nat ?m) lps pos (of_nat (Suc i)) (of_nat 0) h
                = Some (Inr (Some pos', h'))"
          and b': "str_bytes pos' = ?occ ?n" and ok': "no_failure h'" by blast
        have "str_find_loop self p (count self) (of_nat ?m) lps pos (of_nat i) 0 h
            = str_find_loop self p (count self) (of_nat ?m) lps pos (of_nat i + 1) 0 h"
          by (rule str_find_loop_mismatch_at_zero [OF ci ldi ld0 False m0])
        also have "\<dots> = Some (Inr (Some pos', h'))"
          unfolding of_nat_plus_one_size using r by simp
        finally show ?thesis using b' ok' True by simp
      next
        case jz: False
        let ?b = "longest_border p j"
        have q1: "1 \<le> j" using jz by simp
        note mm = mismatch_step [OF pm q1 jm ilt False]
        have lbj: "?b < j" using q1 jm by (intro longest_border_less) simp_all
        have bm: "?b < ?m" using lbj jm by simp
        have f1: "str_bytes pos = ?occ (i - ?b)" unfolding mm(2) by (rule found)
        have ms: "2 * (?n - i) + ?b < 2 * (?n - i) + j" using lbj by simp
        from less.hyps [OF ms bm mm(1) wf f1 ok] obtain pos' h' where
          r: "str_find_loop self p (count self) (of_nat ?m) lps pos (of_nat i) (of_nat ?b) h
                = Some (Inr (Some pos', h'))"
          and b': "str_bytes pos' = ?occ ?n" and ok': "no_failure h'" by blast
        have nz: "(of_nat j :: size_t) \<noteq> 0"
          using jz j64 of_nat_eq_size [of j 0] by simp
        have j1: "j - 1 < ?m" using jm by simp
        have "vec_get lps (of_nat (j - 1)) = Inr (of_nat (longest_border p (Suc (j - 1))))"
          by (rule lps_table_entry [OF tbl fil j1])
        moreover have "(of_nat (j - 1) :: size_t) = of_nat j - 1" using q1 by simp
        ultimately have tb: "vec_get lps (of_nat j - 1) = Inr (of_nat ?b)" using q1 by simp
        have "str_find_loop self p (count self) (of_nat ?m) lps pos (of_nat i) (of_nat j) h
            = str_find_loop self p (count self) (of_nat ?m) lps pos (of_nat i) (of_nat ?b) h"
          by (rule str_find_loop_mismatch [OF ci ldi ldj False mne nz tb])
        also note r
        finally show ?thesis using b' ok' by simp
      qed
    qed
  qed
qed

lemma kmp_compute_lps_correct:
  assumes "lps_table p lps" "1 \<le> length p" "no_failure h"
  shows "\<exists>lps' h'. kmp_compute_lps p (of_nat (length p)) lps h = Some (Inr (lps', h'))
          \<and> lps_table p lps' \<and> lps_filled p lps' (length p) \<and> no_failure h'"
proof -
  let ?lps0 = "lps\<lparr>data := (data lps)[0 := 0]\<rparr>"
  from assms(1) have l: "length (data lps) = 128" by (simp add: lps_table_def)
  have st: "store lps 0 0 = Inr ?lps0" by (simp add: store_def l)
  have T: "lps_table p ?lps0" by (rule lps_table_upd [OF assms(1)])
  have b1: "longest_border p (Suc 0) = 0" using longest_border_less [of 1 p] assms(2) by simp
  have F: "lps_filled p ?lps0 1" by (simp add: lps_filled_def l b1)
  have B: "is_border p 1 0" using assms(2) by (intro is_border_0) simp_all
  have M: "\<And>b. is_border p (Suc 1) b \<Longrightarrow> b \<le> Suc 0" by (simp add: is_border_def)
  from kmp_compute_lps_loop_correct [OF T F _ assms(2) B M assms(3)]
  obtain lps' h' where
    "kmp_compute_lps_loop p (of_nat (length p)) ?lps0 (of_nat 1) (of_nat 0) h = Some (Inr (lps', h'))"
    "lps_table p lps'" "lps_filled p lps' (length p)" "no_failure h'" by auto
  then show ?thesis by (simp add: kmp_compute_lps_def st)
qed

lemma str_find_correct:
  assumes "pat \<noteq> []" "length pat \<le> 128"
    "unat (count self) \<le> length (data self)" "unat (count self) < 2 ^ 61" "no_failure h"
  shows "\<exists>pos h'. str_find self pat h = Some (Inr (Some pos, h'))
          \<and> str_bytes pos
              = map of_nat (filter (occurs (str_bytes self) pat) [0..<length (str_bytes self)])
          \<and> no_failure h'"
proof -
  let ?m = "of_nat (length pat) :: size_t"
  let ?pos = "\<lparr>unit_size = 8, capacity = 128, count = 0, data = replicate 128 0\<rparr> :: vec_index_t"
  let ?lps = "\<lparr>unit_size = 8, capacity = 128, count = ?m, data = replicate 128 0\<rparr> :: vec_index_t"
  from assms(1) have m1: "1 \<le> length pat" by (cases pat) simp_all
  have mz: "?m \<noteq> 0" using assms(1,2) of_nat_eq_size [of "length pat" 0] by simp
  from vec_new_len_no_failure [OF assms(5), of 8 0] obtain h1 where
    a1: "vec_new_len 8 0 h = (Some ?pos, h1)" and ok1: "no_failure h1" by blast
  from vec_new_len_no_failure [OF ok1, of 8 ?m] obtain h2 where
    a2: "vec_new_len 8 ?m h1 = (Some ?lps, h2)" and ok2: "no_failure h2" by blast
  have T: "lps_table pat ?lps" using assms(2) by (simp add: lps_table_def)
  from kmp_compute_lps_correct [OF T m1 ok2] obtain lps' h3 where
    k: "kmp_compute_lps pat ?m ?lps h2 = Some (Inr (lps', h3))"
    and T': "lps_table pat lps'" and F': "lps_filled pat lps' (length pat)"
    and ok3: "no_failure h3" by blast
  have z: "0 < length pat" using assms(1) by simp
  have pm: "partial_match (str_bytes self) pat 0 0" by (rule partial_match_zero) simp
  have wf: "pos_wf ?pos" by (simp add: pos_wf_def)
  have e: "str_bytes ?pos = map of_nat (filter (occurs (str_bytes self) pat) [0..<0 - 0])"
    by (simp add: str_bytes_def)
  from str_find_loop_correct [OF assms(3,4) T' F' m1 z pm wf e ok3] obtain pos' h' where
    r: "str_find_loop self pat (count self) ?m lps' ?pos (of_nat 0) (of_nat 0) h3
          = Some (Inr (Some pos', h'))"
    and b: "str_bytes pos'
          = map of_nat (filter (occurs (str_bytes self) pat) [0..<length (str_bytes self)])"
    and ok': "no_failure h'" by blast
  have "str_find self pat h = Some (Inr (Some pos', h'))"
    using mz r by (simp add: str_find_def Let_def str_length_def vec_count_def strlen_def
        vec_new_def a1 a2 k)
  with b ok' show ?thesis by simp
qed

end
